theory Spec2Isabelle
  imports Main "HOL-Library.Multiset"
begin

section \<open>Syntax trees and the unconditional loop exit rule (CheckIneffectiveLoop)\<close>

text \<open>
  The part of \<^verbatim>\<open>go/ast\<close> that CheckIneffectiveLoop looks at. A node carries its source
  position where the rule needs the node's identity (loops, which are compared with the
  target of a label) or anchors a diagnostic at it (branch and return statements).
  \<^verbatim>\<open>ast.Inspect\<close> treats every other node alike, so all other kinds of statements,
  expressions (function literals among them) and blocks are \<open>OtherNode\<close> with their
  children in traversal order.
\<close>

type_synonym pos = nat

text \<open>\<^verbatim>\<open>*ast.Object\<close> of a label.\<close>
type_synonym label = string

text \<open>
  \<^verbatim>\<open>token.Token\<close>: the tokens of branch statements, the comparison operators, and of the
  other operators \<^verbatim>\<open>MUL\<close> (also the load, as a unary operator of \<^verbatim>\<open>go/ssa\<close>) and \<^verbatim>\<open>ADD\<close>.
\<close>
datatype token =
    BREAK | CONTINUE | GOTO | FALLTHROUGH
  | EQL | NEQ | LSS | GTR | LEQ | GEQ
  | MUL | ADD

text \<open>
  What \<^verbatim>\<open>f.Pkg.TypesInfo.TypeOf(node.X)\<close> gives for the operand of a range statement:
  nil, a type whose underlying type is a map, or any other type.
\<close>
datatype xtype = NoType | MapType | OtherType

text \<open>
  \<open>ForStmt pos [Init, Cond, Post] Body.List\<close>, \<open>RangeStmt pos (type of X) [Key, Value, X] Body.List\<close>,
  \<open>BranchStmt pos Tok Label\<close> (\<open>None\<close>: no label), \<open>ReturnStmt pos Results\<close>,
  \<open>LabeledStmt Label.Obj Stmt\<close>.
\<close>
datatype node =
    ForStmt pos "node list" "node list"
  | RangeStmt pos xtype "node list" "node list"
  | BranchStmt pos token "label option"
  | ReturnStmt pos "node list"
  | IfStmt "node list"
  | SwitchStmt "node list"
  | SelectStmt "node list"
  | LabeledStmt label node
  | OtherNode "node list"

text \<open>The children of a node, in the order \<^verbatim>\<open>ast.Walk\<close> visits them.\<close>
fun children :: "node \<Rightarrow> node list" where
  "children (ForStmt p pre body) = pre @ body"
| "children (RangeStmt p t pre body) = pre @ body"
| "children (BranchStmt p tok l) = []"
| "children (ReturnStmt p rs) = rs"
| "children (IfStmt cs) = cs"
| "children (SwitchStmt cs) = cs"
| "children (SelectStmt cs) = cs"
| "children (LabeledStmt l s) = [s]"
| "children (OtherNode cs) = cs"

lemma size_list_member: "x \<in> set xs \<Longrightarrow> size x < Suc (size_list size xs)"
  by (induction xs) auto

lemma children_smaller: "c \<in> set (children n) \<Longrightarrow> size c < size n"
  by (cases n) (auto dest: size_list_member)

text \<open>
  \<^verbatim>\<open>ast.Inspect(node, f)\<close>: depth first, \<open>f\<close> is called on a node before its children, and
  the children are visited only when \<open>f\<close> returns true. The callbacks of the rule are
  closures that assign to captured variables; here the captured variables are the state
  \<open>s\<close> that \<open>f\<close> takes and returns.
\<close>
function inspect :: "(node \<Rightarrow> 's \<Rightarrow> bool \<times> 's) \<Rightarrow> node \<Rightarrow> 's \<Rightarrow> 's" where
  "inspect f n s =
     (case f n s of
        (True, s') \<Rightarrow> fold (inspect f) (children n) s'
      | (False, s') \<Rightarrow> s')"
  by pat_completeness auto
termination
  by (relation "measure (\<lambda>(f, n, s). size n)") (auto dest: children_smaller)

declare inspect.simps [simp del]

text \<open>First pass: \<^verbatim>\<open>labels[label.Label.Obj] = label.Stmt\<close> for every labeled statement.\<close>
definition record_label :: "node \<Rightarrow> (label \<rightharpoonup> node) \<Rightarrow> bool \<times> (label \<rightharpoonup> node)" where
  "record_label n labels =
     (case n of LabeledStmt l s \<Rightarrow> (True, labels(l \<mapsto> s)) | _ \<Rightarrow> (True, labels))"

text \<open>\<^verbatim>\<open>stmt.Label == nil || labels[stmt.Label.Obj] == loop\<close>\<close>
definition targets :: "(label \<rightharpoonup> node) \<Rightarrow> node \<Rightarrow> label option \<Rightarrow> bool" where
  "targets labels loop lbl = (case lbl of None \<Rightarrow> True | Some l \<Rightarrow> labels l = Some loop)"

text \<open>
  The loop over \<^verbatim>\<open>body.List\<close>. The state is \<open>(unconditionalExit, hasBranching)\<close>; \<open>None\<close> is
  the \<^verbatim>\<open>return false\<close> at a continue of this loop.
\<close>
fun scan_body :: "(label \<rightharpoonup> node) \<Rightarrow> node \<Rightarrow> node list \<Rightarrow> node option \<times> bool
    \<Rightarrow> (node option \<times> bool) option" where
  "scan_body labels loop [] st = Some st"
| "scan_body labels loop (stmt # rest) (ue, hb) =
     (case stmt of
        BranchStmt p tok lbl \<Rightarrow>
          (case tok of
             BREAK \<Rightarrow>
               if targets labels loop lbl then scan_body labels loop rest (Some stmt, hb)
               else scan_body labels loop rest (ue, hb)
           | CONTINUE \<Rightarrow>
               if targets labels loop lbl then None
               else scan_body labels loop rest (ue, hb)
           | _ \<Rightarrow> scan_body labels loop rest (ue, hb))
      | ReturnStmt p rs \<Rightarrow> scan_body labels loop rest (Some stmt, hb)
      | IfStmt cs \<Rightarrow> scan_body labels loop rest (ue, True)
      | ForStmt p pre b \<Rightarrow> scan_body labels loop rest (ue, True)
      | RangeStmt p t pre b \<Rightarrow> scan_body labels loop rest (ue, True)
      | SwitchStmt cs \<Rightarrow> scan_body labels loop rest (ue, True)
      | SelectStmt cs \<Rightarrow> scan_body labels loop rest (ue, True)
      | _ \<Rightarrow> scan_body labels loop rest (ue, hb))"

text \<open>
  The callback of the inner \<^verbatim>\<open>ast.Inspect(body, ...)\<close>: a goto, an unlabeled continue or a
  continue whose label is this loop clears \<open>unconditionalExit\<close>.
\<close>
definition clear_exit :: "(label \<rightharpoonup> node) \<Rightarrow> node \<Rightarrow> node \<Rightarrow> node option \<Rightarrow> bool \<times> node option" where
  "clear_exit labels loop n ue =
     (case n of
        BranchStmt p tok lbl \<Rightarrow>
          (case tok of
             GOTO \<Rightarrow> (False, None)
           | CONTINUE \<Rightarrow>
               (case lbl of
                  Some l \<Rightarrow> if labels l \<noteq> Some loop then (True, ue) else (False, None)
                | None \<Rightarrow> (False, None))
           | _ \<Rightarrow> (True, ue))
      | _ \<Rightarrow> (True, ue))"

text \<open>The position a diagnostic is reported at (\<^verbatim>\<open>f.Errorf(unconditionalExit, ...)\<close>).\<close>
fun node_pos :: "node \<Rightarrow> pos" where
  "node_pos (BranchStmt p tok l) = p"
| "node_pos (ReturnStmt p rs) = p"
| "node_pos (ForStmt p pre b) = p"
| "node_pos (RangeStmt p t pre b) = p"
| "node_pos _ = 0"

text \<open>
  The type switch at the head of the callback: the body of a for statement, the body of a
  range statement over an operand of known type that is not a map, and nothing otherwise.
\<close>
fun loop_body :: "node \<Rightarrow> node list option" where
  "loop_body (ForStmt p pre body) = Some body"
| "loop_body (RangeStmt p t pre body) = (if t = OtherType then Some body else None)"
| "loop_body _ = None"

text \<open>
  The callback of the second \<^verbatim>\<open>ast.Inspect(fn.Body, ...)\<close>. The state is the list of
  diagnostics reported so far, each the position of the flagged exit statement.
\<close>
definition check_loop :: "(label \<rightharpoonup> node) \<Rightarrow> node \<Rightarrow> pos list \<Rightarrow> bool \<times> pos list" where
  "check_loop labels n diags =
     (case loop_body n of
        None \<Rightarrow> (True, diags)
      | Some body \<Rightarrow>
          if length body < 2 then (True, diags)
          else
            (case scan_body labels n body (None, False) of
               None \<Rightarrow> (False, diags)
             | Some (ue, hb) \<Rightarrow>
                 if ue = None \<or> \<not> hb then (False, diags)
                 else
                   (case fold (inspect (clear_exit labels n)) body ue of
                      None \<Rightarrow> (True, diags)
                    | Some e \<Rightarrow> (True, diags @ [node_pos e]))))"

text \<open>The rule on the body of one function declaration.\<close>
definition CheckIneffectiveLoop :: "node \<Rightarrow> pos list" where
  "CheckIneffectiveLoop fnbody =
     inspect (check_loop (inspect record_label fnbody Map.empty)) fnbody []"

text \<open>
  The vocabulary the statements about the rule use. \<open>nodes n\<close> lists \<open>n\<close> and every node
  below it, in the order \<^verbatim>\<open>ast.Inspect\<close> visits them when the callback always returns true.
\<close>
function nodes :: "node \<Rightarrow> node list" where
  "nodes n = n # concat (map nodes (children n))"
  by pat_completeness auto
termination
  by (relation "measure size") (auto dest: children_smaller)

declare nodes.simps [simp del]

text \<open>
  A statement that withholds the diagnostic of \<open>loop\<close>: a goto, an unlabeled continue, or
  a continue whose label is that of \<open>loop\<close>.
\<close>
fun kills :: "(label \<rightharpoonup> node) \<Rightarrow> node \<Rightarrow> node \<Rightarrow> bool" where
  "kills labels loop (BranchStmt p tok lbl) =
     (tok = GOTO \<or> (tok = CONTINUE \<and> targets labels loop lbl))"
| "kills labels loop _ = False"

text \<open>An exit of \<open>loop\<close>: a return, an unlabeled break, or a break whose label is that of \<open>loop\<close>.\<close>
fun is_exit :: "(label \<rightharpoonup> node) \<Rightarrow> node \<Rightarrow> node \<Rightarrow> bool" where
  "is_exit labels loop (BranchStmt p tok lbl) = (tok = BREAK \<and> targets labels loop lbl)"
| "is_exit labels loop (ReturnStmt p rs) = True"
| "is_exit labels loop _ = False"

text \<open>An unlabeled continue, or a continue whose label is that of \<open>loop\<close>.\<close>
fun is_continue :: "(label \<rightharpoonup> node) \<Rightarrow> node \<Rightarrow> node \<Rightarrow> bool" where
  "is_continue labels loop (BranchStmt p tok lbl) = (tok = CONTINUE \<and> targets labels loop lbl)"
| "is_continue labels loop _ = False"

text \<open>The statements that set \<open>hasBranching\<close>.\<close>
fun is_branching :: "node \<Rightarrow> bool" where
  "is_branching (IfStmt cs) = True"
| "is_branching (ForStmt p pre b) = True"
| "is_branching (RangeStmt p t pre b) = True"
| "is_branching (SwitchStmt cs) = True"
| "is_branching (SelectStmt cs) = True"
| "is_branching _ = False"

text \<open>
  The positions of the statements that can be flagged below \<open>n\<close>: the direct exit
  statements of the bodies that \<open>loop_body\<close> gives.
\<close>
definition exit_positions :: "(label \<rightharpoonup> node) \<Rightarrow> node \<Rightarrow> pos set" where
  "exit_positions L n =
     {node_pos e | e loop body.
        loop \<in> set (nodes n) \<and> loop_body loop = Some body \<and> e \<in> set body \<and> is_exit L loop e}"

section \<open>Basic blocks and the infinite recursion rule (CheckInfiniteRecursion)\<close>

text \<open>
  What the rule reads of a function in SSA form. A function is identified by \<open>Fid\<close> (the
  code compares \<^verbatim>\<open>*ssa.Function\<close> pointers); a block is identified by its index in
  \<open>Blocks\<close>. \<open>CallInstr invoke callee\<close> is an \<^verbatim>\<open>*ssa.Call\<close> with
  \<^verbatim>\<open>Common().IsInvoke()\<close> and \<^verbatim>\<open>Common().Value\<close>: an \<^verbatim>\<open>*ssa.Function\<close>, an
  \<^verbatim>\<open>*ssa.Builtin\<close> with its name, or another value.
\<close>

datatype callee = StaticFunction nat | Builtin string | OtherCallee

text \<open>
  The values the rules tell apart, each with the number of the instruction that defines
  it (two instructions are never the same value): a parameter, an \<^verbatim>\<open>*ssa.Alloc\<close>,
  \<open>FieldAddr id X Field Pos\<close>, \<open>UnOp id Op X Pos\<close>, and any other value.
\<close>
datatype ssa_value =
    Param nat
  | Alloc nat
  | FieldAddr nat ssa_value nat pos
  | UnOp nat token ssa_value pos
  | OtherSSAValue nat

text \<open>
  The instructions of a block: a call, a return, \<open>Store Addr Val\<close>, an instruction that is
  a value (an \<^verbatim>\<open>*ssa.UnOp\<close>, an \<^verbatim>\<open>*ssa.FieldAddr\<close>, ...), and the others.
\<close>
datatype instr =
    CallInstr bool callee
  | ReturnInstr
  | IfInstr
  | JumpInstr
  | Store ssa_value ssa_value
  | ValueInstr ssa_value
  | OtherInstr

record basic_block =
  Instrs :: "instr list"
  Succs :: "nat list"

record ssa_function =
  Fid :: nat
  Blocks :: "basic_block list"

text \<open>
  \<^verbatim>\<open>len(b.Instrs) != 0\<close> and the last instruction of \<open>b\<close> is a \<^verbatim>\<open>*ssa.Return\<close>.
\<close>
definition ends_in_return :: "basic_block \<Rightarrow> bool" where
  "ends_in_return b = (case rev (Instrs b) of [] \<Rightarrow> False | i # _ \<Rightarrow> i = ReturnInstr)"

text \<open>
  The loop that sets \<open>canReturn\<close>, over the blocks \<open>bs\<close> of the function from index \<open>j\<close>
  on. \<open>Dominates\<close> is \<^verbatim>\<open>(*ssa.BasicBlock).Dominates\<close> of \<^verbatim>\<open>go/ssa\<close>, on block indices; it
  is not code of this repository and is a parameter.
\<close>
fun canReturn :: "(nat \<Rightarrow> nat \<Rightarrow> bool) \<Rightarrow> nat \<Rightarrow> nat \<Rightarrow> basic_block list \<Rightarrow> bool" where
  "canReturn Dominates block j [] = False"
| "canReturn Dominates block j (b # bs) =
     (if Dominates block j then canReturn Dominates block (Suc j) bs
      else if ends_in_return b then True
      else canReturn Dominates block (Suc j) bs)"

text \<open>The tests that select a direct call of the function itself.\<close>
definition self_call :: "ssa_function \<Rightarrow> instr \<Rightarrow> bool" where
  "self_call ssafn ins =
     (case ins of
        CallInstr invoke c \<Rightarrow>
          (if invoke then False
           else (case c of StaticFunction g \<Rightarrow> g = Fid ssafn | _ \<Rightarrow> False))
      | _ \<Rightarrow> False)"

text \<open>
  The loop over the instructions of block \<open>block\<close>, from instruction index \<open>i\<close> on. A
  diagnostic is the flagged call: (index of its block, index in the block).
\<close>
fun check_instrs :: "(nat \<Rightarrow> nat \<Rightarrow> bool) \<Rightarrow> ssa_function \<Rightarrow> nat \<Rightarrow> nat \<Rightarrow> instr list
    \<Rightarrow> (nat \<times> nat) list" where
  "check_instrs Dominates ssafn block i [] = []"
| "check_instrs Dominates ssafn block i (ins # rest) =
     (if \<not> self_call ssafn ins then check_instrs Dominates ssafn block (Suc i) rest
      else if canReturn Dominates block 0 (Blocks ssafn)
        then check_instrs Dominates ssafn block (Suc i) rest
      else (block, i) # check_instrs Dominates ssafn block (Suc i) rest)"

fun check_blocks :: "(nat \<Rightarrow> nat \<Rightarrow> bool) \<Rightarrow> ssa_function \<Rightarrow> nat \<Rightarrow> basic_block list
    \<Rightarrow> (nat \<times> nat) list" where
  "check_blocks Dominates ssafn j [] = []"
| "check_blocks Dominates ssafn j (b # bs) =
     check_instrs Dominates ssafn j 0 (Instrs b) @ check_blocks Dominates ssafn (Suc j) bs"

definition CheckInfiniteRecursion :: "(nat \<Rightarrow> nat \<Rightarrow> bool) \<Rightarrow> ssa_function \<Rightarrow> (nat \<times> nat) list" where
  "CheckInfiniteRecursion Dominates ssafn =
     (if length (Blocks ssafn) = 0 then [] else check_blocks Dominates ssafn 0 (Blocks ssafn))"

text \<open>
  Paths in the control flow graph, for the statements about the rule: the blocks reached
  from the blocks \<open>xs\<close> in at most \<open>k\<close> steps along \<open>Succs\<close> without entering block
  \<open>avoid\<close> (\<open>None\<close>: no block is avoided).
\<close>
definition succs_of :: "'a ssa_function_scheme \<Rightarrow> nat \<Rightarrow> nat list" where
  "succs_of ssafn b = (if b < length (Blocks ssafn) then Succs (Blocks ssafn ! b) else [])"

fun reach :: "ssa_function \<Rightarrow> nat option \<Rightarrow> nat \<Rightarrow> nat list \<Rightarrow> nat list" where
  "reach ssafn avoid 0 xs = xs"
| "reach ssafn avoid (Suc k) xs =
     reach ssafn avoid k
       (remdups (xs @ filter (\<lambda>b. Some b \<noteq> avoid) (concat (map (succs_of ssafn) xs))))"

text \<open>
  Dominance as the control flow graph defines it: \<open>a\<close> dominates \<open>b\<close> when no path from the
  entry block (index 0) reaches \<open>b\<close> without passing through \<open>a\<close>.
\<close>
definition dominates :: "ssa_function \<Rightarrow> nat \<Rightarrow> nat \<Rightarrow> bool" where
  "dominates ssafn a b =
     (b \<notin> set (reach ssafn (Some a) (length (Blocks ssafn)) (if a = 0 then [] else [0])))"

text \<open>Some path forward from block \<open>a\<close> reaches a block that ends in a return.\<close>
definition reaches_return :: "ssa_function \<Rightarrow> nat \<Rightarrow> bool" where
  "reaches_return ssafn a =
     list_ex (\<lambda>b. b < length (Blocks ssafn) \<and> ends_in_return (Blocks ssafn ! b))
       (reach ssafn None (length (Blocks ssafn)) [a])"

text \<open>
  \<^verbatim>\<open>func f(c bool) { f(c); if c { println() }; return }\<close>: the entry block calls \<open>f\<close> and
  branches, block 1 calls \<open>println\<close> and jumps to block 2, which returns.
\<close>
definition recursion_example :: ssa_function where
  "recursion_example =
     \<lparr>Fid = 7,
      Blocks =
        [\<lparr>Instrs = [CallInstr False (StaticFunction 7), IfInstr], Succs = [1, 2]\<rparr>,
         \<lparr>Instrs = [CallInstr False OtherCallee, JumpInstr], Succs = [2]\<rparr>,
         \<lparr>Instrs = [ReturnInstr], Succs = []\<rparr>]\<rparr>"

section \<open>Constant resolution (consts) and CheckPredeterminedBooleanExprs\<close>

text \<open>
  The values \<^verbatim>\<open>consts\<close> distinguishes. \<open>Const v\<close> is an \<^verbatim>\<open>*ssa.Const\<close> with \<^verbatim>\<open>Value\<close> \<open>v\<close>, a
  \<^verbatim>\<open>constant.Value\<close> of type \<open>'v\<close> or nil (\<open>None\<close>). \<open>Convert x\<close> is an \<^verbatim>\<open>*ssa.Convert\<close> with
  operand \<open>x\<close>. \<open>Phi name\<close> is an \<^verbatim>\<open>*ssa.Phi\<close>, known by its \<^verbatim>\<open>Name()\<close> as in \<open>visitedPhis\<close>;
  its operands are looked up in the table of the function's phis, since a phi can be its
  own operand through other phis. \<open>BinOp\<close> and \<open>OtherValue\<close> fall to the default case.
\<close>
datatype 'v val =
    Const "'v option"
  | Convert "'v val"
  | Phi string
  | BinOp token "'v val" "'v val"
  | OtherValue

type_synonym 'v phis = "(string \<times> 'v val list) list"

text \<open>\<^verbatim>\<open>val.Operands(nil)\<close> of the phi named \<open>n\<close>.\<close>
definition Operands :: "'v phis \<Rightarrow> string \<Rightarrow> 'v val list" where
  "Operands P n = (case map_of P n of Some vs \<Rightarrow> vs | None \<Rightarrow> [])"

text \<open>
  The loop that builds \<open>uniq\<close>: a constant is dropped when its \<^verbatim>\<open>Value\<close> equals that of the
  last constant kept.
\<close>
fun uniq_loop :: "'v option list \<Rightarrow> 'v option list \<Rightarrow> 'v option list" where
  "uniq_loop uniq [] = uniq"
| "uniq_loop uniq (v # rest) =
     (if v = last uniq then uniq_loop uniq rest else uniq_loop (uniq @ [v]) rest)"

text \<open>The end of \<^verbatim>\<open>consts\<close>, from \<^verbatim>\<open>if len(out) < 2\<close> on.\<close>
fun uniq_out :: "'v option list \<Rightarrow> 'v option list" where
  "uniq_out (x # y # rest) = uniq_loop [x] (y # rest)"
| "uniq_out out = out"

text \<open>
  \<^verbatim>\<open>consts\<close> (named \<open>consts_fn\<close> here). The result is \<open>(out, ok, visitedPhis)\<close>: the map \<open>visitedPhis\<close> is shared by all
  the recursive calls of one query, so the model returns it. The recursion ends because
  every phi is entered at most once; the model counts the phis that may still be entered
  in \<open>fuel\<close>, and gives \<open>None\<close> if it runs out (it does not, see \<open>consts_fn_fuel\<close> below).
  A phi that the table does not list has no operands.
\<close>
fun consts_fn :: "'v phis \<Rightarrow> nat \<Rightarrow> 'v val \<Rightarrow> 'v option list \<Rightarrow> string set
      \<Rightarrow> ('v option list \<times> bool \<times> string set) option"
  and phi_operands :: "'v phis \<Rightarrow> nat \<Rightarrow> 'v val list \<Rightarrow> 'v option list \<Rightarrow> string set
      \<Rightarrow> ('v option list \<times> bool \<times> string set) option" where
  "consts_fn P fuel (Phi n) out visitedPhis =
     (if n \<in> visitedPhis then Some (uniq_out out, True, visitedPhis)
      else if map_of P n = None then Some (uniq_out out, True, insert n visitedPhis)
      else
        (case fuel of
           0 \<Rightarrow> None
         | Suc fuel' \<Rightarrow>
             (case phi_operands P fuel' (Operands P n) out (insert n visitedPhis) of
                None \<Rightarrow> None
              | Some (out', ok, visited') \<Rightarrow>
                  if \<not> ok then Some ([], False, visited')
                  else Some (uniq_out out', True, visited'))))"
| "consts_fn P fuel (Const c) out visitedPhis = Some (uniq_out (out @ [c]), True, visitedPhis)"
| "consts_fn P fuel (Convert x) out visitedPhis =
     (case consts_fn P fuel x out visitedPhis of
        None \<Rightarrow> None
      | Some (out', ok, visited') \<Rightarrow>
          if \<not> ok then Some ([], False, visited')
          else Some (uniq_out out', True, visited'))"
| "consts_fn P fuel (BinOp op x y) out visitedPhis = Some ([], False, visitedPhis)"
| "consts_fn P fuel OtherValue out visitedPhis = Some ([], False, visitedPhis)"
| "phi_operands P fuel [] out visitedPhis = Some (out, True, visitedPhis)"
| "phi_operands P fuel (phival # vals) out visitedPhis =
     (case consts_fn P fuel phival out visitedPhis of
        None \<Rightarrow> None
      | Some (out', ok, visited') \<Rightarrow>
          if \<not> ok then Some ([], False, visited')
          else phi_operands P fuel vals out' visited')"

text \<open>
  A query as the rule makes it, \<^verbatim>\<open>consts(val, nil, nil)\<close>: the constants and the flag.
\<close>
definition constants_of :: "'v phis \<Rightarrow> 'v val \<Rightarrow> ('v option list \<times> bool) option" where
  "constants_of P val =
     (case consts_fn P (length P) val [] {} of
        None \<Rightarrow> None
      | Some (out, ok, visited) \<Rightarrow> Some (out, ok))"

text \<open>
  The vocabulary of the statements about \<^verbatim>\<open>consts\<close>. \<open>reaches P v w\<close>: \<open>w\<close> is \<open>v\<close> or is found
  from \<open>v\<close> through operands of conversions and phis. A value is unknown when it reaches a
  value of a kind that the default case refuses.
\<close>
inductive reaches :: "'v phis \<Rightarrow> 'v val \<Rightarrow> 'v val \<Rightarrow> bool" for P where
  here: "reaches P v v"
| through_convert: "reaches P x w \<Longrightarrow> reaches P (Convert x) w"
| through_phi: "x \<in> set (Operands P n) \<Longrightarrow> reaches P x w \<Longrightarrow> reaches P (Phi n) w"

fun is_default :: "'v val \<Rightarrow> bool" where
  "is_default (BinOp op x y) = True"
| "is_default OtherValue = True"
| "is_default _ = False"

definition unknown :: "'v phis \<Rightarrow> 'v val \<Rightarrow> bool" where
  "unknown P v = (\<exists>w. reaches P v w \<and> is_default w)"

text \<open>
  For the proof: \<open>v\<close> is accounted for by the visited phis \<open>V\<close> and the constants \<open>C\<close>
  found so far, and what one call of \<^verbatim>\<open>consts\<close> on the values \<open>vs\<close> guarantees.
\<close>
fun covered :: "string set \<Rightarrow> 'v option set \<Rightarrow> 'v val \<Rightarrow> bool" where
  "covered V C (Const c) = (c \<in> C)"
| "covered V C (Convert x) = covered V C x"
| "covered V C (Phi n) = (n \<in> V)"
| "covered V C _ = False"

definition resolution_inv :: "'v phis \<Rightarrow> 'v val list \<Rightarrow> 'v option list \<Rightarrow> string set
    \<Rightarrow> 'v option list \<Rightarrow> bool \<Rightarrow> string set \<Rightarrow> bool" where
  "resolution_inv P vs out vis out' ok vis' =
     (vis \<subseteq> vis'
      \<and> (ok \<longrightarrow> set out \<subseteq> set out'
            \<and> set out' \<subseteq> set out \<union> {c. \<exists>x \<in> set vs. reaches P x (Const c)}
            \<and> (\<forall>x \<in> set vs. covered vis' (set out') x)
            \<and> (\<forall>n \<in> vis' - vis. \<forall>x \<in> set (Operands P n). covered vis' (set out') x))
      \<and> (\<not> ok \<longrightarrow> out' = [] \<and> (\<exists>x \<in> set vs. unknown P x)))"

text \<open>What a query gives: whether it succeeds, and the set of the constants it returns.\<close>
definition resolved :: "'v phis \<Rightarrow> 'v val \<Rightarrow> bool" where
  "resolved P v = (case constants_of P v of Some (out, ok) \<Rightarrow> ok | None \<Rightarrow> False)"

definition constant_set :: "'v phis \<Rightarrow> 'v val \<Rightarrow> 'v option set" where
  "constant_set P v = (case constants_of P v of Some (out, ok) \<Rightarrow> set out | None \<Rightarrow> {})"

text \<open>
  The body of the two loops of CheckPredeterminedBooleanExprs over \<open>xs\<close> and \<open>ys\<close>: whether
  the pair adds to \<open>trues\<close>. \<open>Compare\<close> is \<^verbatim>\<open>constant.Compare\<close> of the Go standard library,
  a parameter here; it is called with a left operand that is not nil, and \<open>None\<close> is its
  panic.
\<close>
datatype error = Panic

definition pair_true :: "('v \<Rightarrow> token \<Rightarrow> 'v option \<Rightarrow> bool option) \<Rightarrow> token
    \<Rightarrow> 'v option \<Rightarrow> 'v option \<Rightarrow> bool option" where
  "pair_true Compare op x y =
     (case x of
        None \<Rightarrow> (case y of None \<Rightarrow> Some True | Some yv \<Rightarrow> Some False)
      | Some xv \<Rightarrow> Compare xv op y)"

fun count_ys :: "('v \<Rightarrow> token \<Rightarrow> 'v option \<Rightarrow> bool option) \<Rightarrow> token
    \<Rightarrow> 'v option \<Rightarrow> 'v option list \<Rightarrow> nat \<Rightarrow> error + nat" where
  "count_ys Compare op x [] trues = Inr trues"
| "count_ys Compare op x (y # ys) trues =
     (case pair_true Compare op x y of
        None \<Rightarrow> Inl Panic
      | Some b \<Rightarrow> count_ys Compare op x ys (if b then trues + 1 else trues))"

fun count_xs :: "('v \<Rightarrow> token \<Rightarrow> 'v option \<Rightarrow> bool option) \<Rightarrow> token
    \<Rightarrow> 'v option list \<Rightarrow> 'v option list \<Rightarrow> nat \<Rightarrow> error + nat" where
  "count_xs Compare op [] ys trues = Inr trues"
| "count_xs Compare op (x # xs) ys trues =
     (case count_ys Compare op x ys trues of
        Inl e \<Rightarrow> Inl e
      | Inr trues' \<Rightarrow> count_xs Compare op xs ys trues')"

text \<open>
  A diagnostic of the rule: the outcome \<open>b\<close>, and \<open>xs\<close>, \<^verbatim>\<open>binop.Op\<close> and \<open>ys\<close> as the message
  prints them.
\<close>
record 'v tautology =
  always :: bool
  left_consts :: "'v option list"
  operator :: token
  right_consts :: "'v option list"

text \<open>
  The callback on a binary expression with operator \<open>binop_op\<close>. \<open>val\<close> is what
  \<^verbatim>\<open>fn.ValueForExpr(binop)\<close> gives, \<open>None\<close> when there is no enclosing function or no value.
  The outer \<open>option\<close> is that of \<open>constants_of\<close>.
\<close>
definition CheckPredeterminedBooleanExprs ::
  "('v \<Rightarrow> token \<Rightarrow> 'v option \<Rightarrow> bool option) \<Rightarrow> 'v phis \<Rightarrow> token \<Rightarrow> 'v val option
     \<Rightarrow> (error + 'v tautology list) option" where
  "CheckPredeterminedBooleanExprs Compare P binop_op val =
     (if binop_op \<notin> {GTR, LSS, EQL, NEQ, LEQ, GEQ} then Some (Inr [])
      else
        (case val of
           Some (BinOp ssa_op X Y) \<Rightarrow>
             (case constants_of P X of
                None \<Rightarrow> None
              | Some (xs, ok1) \<Rightarrow>
                  (case constants_of P Y of
                     None \<Rightarrow> None
                   | Some (ys, ok2) \<Rightarrow>
                       if \<not> ok1 \<or> \<not> ok2 \<or> length xs = 0 \<or> length ys = 0 then Some (Inr [])
                       else
                         (case count_xs Compare ssa_op xs ys 0 of
                            Inl e \<Rightarrow> Some (Inl e)
                          | Inr trues \<Rightarrow>
                              if trues = 0 \<or> trues = length xs * length ys
                              then Some (Inr [\<lparr>always = (trues \<noteq> 0), left_consts = xs,
                                               operator = binop_op, right_consts = ys\<rparr>])
                              else Some (Inr []))))
         | _ \<Rightarrow> Some (Inr [])))"

text \<open>
  \<^verbatim>\<open>constant.Compare\<close> on integer constants, for the examples: the comparison of the two
  integers; with a nil operand, which is no \<^verbatim>\<open>constant.Value\<close>, or an operator that is no
  comparison it panics.
\<close>
definition Compare_int :: "int \<Rightarrow> token \<Rightarrow> int option \<Rightarrow> bool option" where
  "Compare_int x op y =
     (case y of
        None \<Rightarrow> None
      | Some yv \<Rightarrow>
          (case op of
             EQL \<Rightarrow> Some (x = yv)
           | NEQ \<Rightarrow> Some (x \<noteq> yv)
           | LSS \<Rightarrow> Some (x < yv)
           | LEQ \<Rightarrow> Some (x \<le> yv)
           | GTR \<Rightarrow> Some (x > yv)
           | GEQ \<Rightarrow> Some (x \<ge> yv)
           | _ \<Rightarrow> None))"

section \<open>Referrers and the ineffective append rule (CheckIneffectiveAppend)\<close>

text \<open>
  The instructions that refer to a value, as \<open>walkRefs\<close> tells them apart: a
  \<^verbatim>\<open>*ssa.DebugRef\<close>, a \<^verbatim>\<open>*ssa.Phi\<close>, a call (a value), another instruction that is a value,
  and an instruction that is no value (a store, a return, ...). An instruction is known
  by its number; the table gives its kind and its \<^verbatim>\<open>Referrers()\<close>. An instruction that the
  table does not list is an instruction that is no value.
\<close>
datatype ref_kind =
    DebugRef
  | PhiInstr
  | CallValue bool callee
  | OtherValueInstr
  | OtherInstruction

type_synonym referrers = "(nat \<times> ref_kind \<times> nat list) list"

definition kind_of :: "referrers \<Rightarrow> nat \<Rightarrow> ref_kind" where
  "kind_of G r = (case map_of G r of Some (k, rs) \<Rightarrow> k | None \<Rightarrow> OtherInstruction)"

definition Referrers :: "referrers \<Rightarrow> nat \<Rightarrow> nat list" where
  "Referrers G r = (case map_of G r of Some (k, rs) \<Rightarrow> rs | None \<Rightarrow> [])"

text \<open>The closure \<open>isAppend\<close>, on the kind of a value.\<close>
definition isAppend :: "ref_kind \<Rightarrow> bool" where
  "isAppend k =
     (case k of
        CallValue invoke c \<Rightarrow>
          (if invoke then False
           else (case c of Builtin name \<Rightarrow> name = ''append'' | _ \<Rightarrow> False))
      | _ \<Rightarrow> False)"

text \<open>
  \<open>walkRefs\<close>. The state is \<open>(visited, isUsed)\<close>, the two variables the closure captures.
  Referrers are entered only for an instruction that was not visited before; \<open>fuel\<close> counts
  the instructions that may still be entered, and \<open>None\<close> is running out of it (which
  does not happen, see \<open>walkRefs_fuel\<close>). The \<^verbatim>\<open>break loop\<close> ends the loop over \<open>refs\<close>.
\<close>
fun walkRefs :: "referrers \<Rightarrow> nat \<Rightarrow> nat list \<Rightarrow> nat set \<times> bool \<Rightarrow> (nat set \<times> bool) option" where
  "walkRefs G fuel [] (visited, isUsed) = Some (visited, isUsed)"
| "walkRefs G fuel (ref # refs) (visited, isUsed) =
     (if ref \<in> visited then walkRefs G fuel refs (visited, isUsed)
      else
        (case kind_of G ref of
           DebugRef \<Rightarrow> walkRefs G fuel refs (insert ref visited, isUsed)
         | OtherInstruction \<Rightarrow> Some (insert ref visited, True)
         | k \<Rightarrow>
             if k \<noteq> PhiInstr \<and> \<not> isAppend k
             then walkRefs G fuel refs (insert ref visited, True)
             else
               (case fuel of
                  0 \<Rightarrow> None
                | Suc fuel' \<Rightarrow>
                    (case walkRefs G fuel' (Referrers G ref) (insert ref visited, isUsed) of
                       None \<Rightarrow> None
                     | Some st \<Rightarrow> walkRefs G fuel refs st))))"

text \<open>
  The expressions the rule tells apart: an identifier with its name and its object, a call
  with its \<^verbatim>\<open>Fun\<close>, and any other expression.
\<close>
datatype expr = Ident string nat | CallExpr expr | OtherExpr

text \<open>
  An assignment statement with what the rule asks about it. \<open>EnclosingSSAFunction\<close> is
  \<open>None\<close> for nil, \<open>Some None\<close> for a function whose \<^verbatim>\<open>Object()\<close> is no \<^verbatim>\<open>*types.Func\<close>, and
  \<open>Some (Some rs)\<close> with the objects \<open>rs\<close> of the results of its signature. \<open>ValueForExpr\<close>
  is \<open>None\<close> when the call has no value, \<open>Some None\<close> when the \<^verbatim>\<open>Referrers()\<close> of its value is
  nil, and \<open>Some (Some refs)\<close> otherwise.
\<close>
record assign_stmt =
  Lhs :: "expr list"
  Rhs :: "expr list"
  EnclosingSSAFunction :: "nat list option option"
  ValueForExpr :: "nat list option option"

text \<open>
  The loop over the results of the signature: the object of the identifier is one of them.
\<close>
definition named_result :: "nat list option \<Rightarrow> nat \<Rightarrow> bool" where
  "named_result tfn obj = (case tfn of Some res \<Rightarrow> obj \<in> set res | None \<Rightarrow> False)"

text \<open>
  The callback on an assignment: \<open>Some True\<close> when the assignment is reported, \<open>Some False\<close>
  when it is not.
\<close>
definition CheckIneffectiveAppend :: "referrers \<Rightarrow> assign_stmt \<Rightarrow> bool option" where
  "CheckIneffectiveAppend G assign =
     (case (Lhs assign, Rhs assign) of
        ([Ident name obj], [CallExpr (Ident callName callObj)]) \<Rightarrow>
          if name = ''_'' then Some False
          else if callName \<noteq> ''append'' then Some False
          else
            (case EnclosingSSAFunction assign of
               None \<Rightarrow> Some False
             | Some tfn \<Rightarrow>
                 if named_result tfn obj then Some False
                 else
                   (case ValueForExpr assign of
                      None \<Rightarrow> Some False
                    | Some None \<Rightarrow> Some False
                    | Some (Some refs) \<Rightarrow>
                        (case walkRefs G (length G) refs ({}, False) of
                           None \<Rightarrow> None
                         | Some (visited, isUsed) \<Rightarrow> Some (\<not> isUsed))))
      | _ \<Rightarrow> Some False)"

text \<open>
  The vocabulary of the statements about the rule. The walk passes through phis and
  calls of append; a consumer is a referrer of any other kind, debug references apart.
  \<open>feeds G refs r\<close>: \<open>r\<close> is one of \<open>refs\<close>, or a referrer of a phi or append call that
  \<open>refs\<close> feed.
\<close>
definition passes :: "referrers \<Rightarrow> nat \<Rightarrow> bool" where
  "passes G r = (kind_of G r = PhiInstr \<or> isAppend (kind_of G r))"

definition consumer :: "referrers \<Rightarrow> nat \<Rightarrow> bool" where
  "consumer G r = (kind_of G r \<noteq> DebugRef \<and> \<not> passes G r)"

inductive feeds :: "referrers \<Rightarrow> nat list \<Rightarrow> nat \<Rightarrow> bool" for G refs where
  direct: "r \<in> set refs \<Longrightarrow> feeds G refs r"
| through: "feeds G refs r' \<Longrightarrow> passes G r' \<Longrightarrow> r \<in> set (Referrers G r') \<Longrightarrow> feeds G refs r"

definition walk_inv :: "referrers \<Rightarrow> nat list \<Rightarrow> nat set \<times> bool \<Rightarrow> nat set \<times> bool \<Rightarrow> bool" where
  "walk_inv G refs st st' =
     (case (st, st') of
        ((V, u), (V', u')) \<Rightarrow>
          V \<subseteq> V' \<and> (u \<longrightarrow> u')
          \<and> (u' \<and> \<not> u \<longrightarrow> (\<exists>r. feeds G refs r \<and> consumer G r))
          \<and> (\<not> u' \<longrightarrow> set refs \<subseteq> V'
                \<and> (\<forall>n \<in> V' - V. \<not> consumer G n
                      \<and> (passes G n \<longrightarrow> set (Referrers G n) \<subseteq> V'))))"

text \<open>
  \<^verbatim>\<open>for ... { x = append(x, v) }\<close> with \<open>x\<close> read nowhere else: the call 1 is referred to by
  the phi 2 at the head of the loop, and the phi by the call and by a debug reference 3.
\<close>
definition loop_append :: referrers where
  "loop_append =
     [(1, CallValue False (Builtin ''append''), [2]),
      (2, PhiInstr, [1, 3]),
      (3, DebugRef, [])]"

section \<open>The ineffective field assignment rule (CheckIneffecitiveFieldAssignments)\<close>

text \<open>
  A method in SSA form, with what the rule asks of it: whether the underlying type of the
  receiver \<^verbatim>\<open>ssafn.Params[0]\<close> (\<open>Param 0\<close>) is a struct, the \<^verbatim>\<open>Heap\<close> flag of each of
  \<^verbatim>\<open>ssafn.Locals\<close>, and \<^verbatim>\<open>ssafn.DomPreorder()\<close>, the blocks in the order \<^verbatim>\<open>go/ssa\<close> lists them.
\<close>
record ssa_method = ssa_function +
  RecvStruct :: bool
  LocalsHeap :: "bool list"
  DomPreorder :: "nat list"

definition instrs_of :: "'a ssa_function_scheme \<Rightarrow> nat \<Rightarrow> instr list" where
  "instrs_of ssafn b = (if b < length (Blocks ssafn) then Instrs (Blocks ssafn ! b) else [])"

text \<open>
  The three maps of the first loop: \<open>recvPtrs\<close>, and for each block its \<open>writes\<close> and its
  \<open>reads\<close>. The inner maps are sets of values; they are lists without repetition here, in
  the order of insertion, because the second loop ranges over them.
\<close>
record facts =
  recvPtrs :: "ssa_value set"
  writes :: "nat \<Rightarrow> ssa_value list"
  reads :: "nat \<Rightarrow> ssa_value list"

text \<open>\<^verbatim>\<open>m[key] = true\<close> on such a list.\<close>
definition add_key :: "'a \<Rightarrow> 'a list \<Rightarrow> 'a list" where
  "add_key x xs = (if x \<in> set xs then xs else xs @ [x])"

text \<open>The body of the loop over the instructions of \<open>block\<close>.\<close>
fun record_instr :: "nat \<Rightarrow> instr \<Rightarrow> facts \<Rightarrow> facts" where
  "record_instr block (Store addr val) st =
     (let st' = (if val \<in> recvPtrs st then st\<lparr>recvPtrs := insert addr (recvPtrs st)\<rparr> else st)
      in (case addr of
            FieldAddr i x field p \<Rightarrow>
              if x \<notin> recvPtrs st' then st'
              else st'\<lparr>writes := (writes st')(block := add_key addr (writes st' block))\<rparr>
          | _ \<Rightarrow> st'))"
| "record_instr block (ValueInstr (UnOp i op x p)) st =
     (if op \<noteq> MUL then st
      else if x \<in> recvPtrs st
        then st\<lparr>reads := (reads st)(block := add_key (UnOp i op x p) (reads st block))\<rparr>
      else
        (case x of
           FieldAddr j y field q \<Rightarrow>
             if y \<notin> recvPtrs st then st
             else st\<lparr>reads := (reads st)(block := add_key x (reads st block))\<rparr>
         | _ \<Rightarrow> st))"
| "record_instr block _ st = st"

text \<open>The first loop, over \<^verbatim>\<open>ssafn.DomPreorder()\<close>.\<close>
definition collect :: "ssa_method \<Rightarrow> facts" where
  "collect ssafn =
     fold (\<lambda>block st. fold (record_instr block) (instrs_of ssafn block) st) (DomPreorder ssafn)
       \<lparr>recvPtrs = {Param 0}, writes = (\<lambda>b. []), reads = (\<lambda>b. [])\<rparr>"

text \<open>
  The test on one element of \<open>reads[block]\<close> in \<open>hasRead\<close>: a read of the same field at a
  later position, or a load of a whole receiver at or after the position of the write.
\<close>
fun is_read_of :: "ssa_value \<Rightarrow> ssa_value \<Rightarrow> bool" where
  "is_read_of (FieldAddr wi wx wfield wpos) (FieldAddr i x field p) = (field = wfield \<and> p > wpos)"
| "is_read_of (FieldAddr wi wx wfield wpos) (UnOp i op x p) = (p \<ge> wpos)"
| "is_read_of _ _ = False"

text \<open>
  \<open>hasRead\<close>, with the map \<open>seen\<close> it captures as state. A successor is entered only when
  it is not in \<open>seen\<close>; \<open>fuel\<close> bounds the depth of the recursion, and \<open>None\<close> is running out of
  it (which does not happen, see \<open>hasRead_fuel\<close>).
\<close>
fun hasRead :: "ssa_method \<Rightarrow> (nat \<Rightarrow> ssa_value list) \<Rightarrow> nat \<Rightarrow> nat \<Rightarrow> ssa_value \<Rightarrow> nat set
      \<Rightarrow> (bool \<times> nat set) option"
  and hasRead_succs :: "ssa_method \<Rightarrow> (nat \<Rightarrow> ssa_value list) \<Rightarrow> nat \<Rightarrow> nat list \<Rightarrow> ssa_value
      \<Rightarrow> nat set \<Rightarrow> (bool \<times> nat set) option" where
  "hasRead ssafn rd fuel block write seen =
     (if list_ex (is_read_of write) (rd block) then Some (True, insert block seen)
      else
        (case fuel of
           0 \<Rightarrow> None
         | Suc fuel' \<Rightarrow> hasRead_succs ssafn rd fuel' (succs_of ssafn block) write (insert block seen)))"
| "hasRead_succs ssafn rd fuel [] write seen = Some (False, seen)"
| "hasRead_succs ssafn rd fuel (succ # rest) write seen =
     (if succ \<in> seen then hasRead_succs ssafn rd fuel rest write seen
      else
        (case hasRead ssafn rd fuel succ write seen of
           None \<Rightarrow> None
         | Some (found, seen') \<Rightarrow>
             if found then Some (True, seen')
             else hasRead_succs ssafn rd fuel rest write seen'))"

text \<open>
  Enough fuel for any walk: one more than the number of blocks and successor entries.
\<close>
definition walk_fuel :: "'a ssa_function_scheme \<Rightarrow> nat" where
  "walk_fuel ssafn = Suc (length (Blocks ssafn) + length (concat (map Succs (Blocks ssafn))))"

text \<open>
  The loop over the writes \<open>ws\<close> of one block. \<open>seen\<close> is made once for the block, before
  this loop, and every call of \<open>hasRead\<close> for the block changes it. A diagnostic is the
  flagged \<^verbatim>\<open>*ssa.FieldAddr\<close>: it gives the position and, by its field index, the name of the
  field.
\<close>
fun check_writes :: "ssa_method \<Rightarrow> (nat \<Rightarrow> ssa_value list) \<Rightarrow> nat \<Rightarrow> ssa_value list \<Rightarrow> nat set
    \<Rightarrow> ssa_value list option" where
  "check_writes ssafn rd block [] seen = Some []"
| "check_writes ssafn rd block (write # rest) seen =
     (case hasRead ssafn rd (walk_fuel ssafn) block write seen of
        None \<Rightarrow> None
      | Some (found, seen') \<Rightarrow>
          (case check_writes ssafn rd block rest seen' of
             None \<Rightarrow> None
           | Some ds \<Rightarrow> Some (if found then ds else write # ds)))"

text \<open>
  The second loop, over the blocks \<open>bs\<close> in the order the map \<open>writes\<close> yields them;
  \<open>write_order\<close> is the order in which the map of a block yields its writes.
\<close>
fun check_blocks_writes :: "(ssa_value list \<Rightarrow> ssa_value list) \<Rightarrow> ssa_method \<Rightarrow> facts
    \<Rightarrow> nat list \<Rightarrow> ssa_value list option" where
  "check_blocks_writes write_order ssafn st [] = Some []"
| "check_blocks_writes write_order ssafn st (block # bs) =
     (case check_writes ssafn (reads st) block (write_order (writes st block)) {} of
        None \<Rightarrow> None
      | Some ds \<Rightarrow>
          (case check_blocks_writes write_order ssafn st bs of
             None \<Rightarrow> None
           | Some ds' \<Rightarrow> Some (ds @ ds')))"

text \<open>
  The rule on a function declaration. \<open>None\<close> as the function is a declaration without
  receiver or without SSA function. Go leaves the order in which a map is ranged over
  open: \<open>block_order\<close> and \<open>write_order\<close> stand for the order of one run, each a
  rearrangement of the keys.
\<close>
definition CheckIneffecitiveFieldAssignments ::
  "(nat list \<Rightarrow> nat list) \<Rightarrow> (ssa_value list \<Rightarrow> ssa_value list) \<Rightarrow> ssa_method option
     \<Rightarrow> ssa_value list option" where
  "CheckIneffecitiveFieldAssignments block_order write_order fn =
     (case fn of
        None \<Rightarrow> Some []
      | Some ssafn \<Rightarrow>
          if length (Blocks ssafn) = 0 then Some []
          else if \<not> RecvStruct ssafn then Some []
          else if length (LocalsHeap ssafn) = 0 \<or> hd (LocalsHeap ssafn) then Some []
          else check_blocks_writes write_order ssafn (collect ssafn)
                 (block_order (remdups (DomPreorder ssafn))))"








text \<open>
  \<^verbatim>\<open>func (r T) m(c bool) { r.a = 1; r.b = 2; if c { println(r.a, r.b) } }\<close>: both fields are
  written in the entry block and read in block 1.
\<close>
definition two_writes :: ssa_method where
  "two_writes =
     \<lparr>Fid = 3,
      Blocks =
        [\<lparr>Instrs = [Store (Alloc 0) (Param 0),
                    ValueInstr (FieldAddr 1 (Alloc 0) 0 10),
                    Store (FieldAddr 1 (Alloc 0) 0 10) (OtherSSAValue 7),
                    ValueInstr (FieldAddr 2 (Alloc 0) 1 20),
                    Store (FieldAddr 2 (Alloc 0) 1 20) (OtherSSAValue 8),
                    IfInstr],
          Succs = [1, 2]\<rparr>,
         \<lparr>Instrs = [ValueInstr (FieldAddr 3 (Alloc 0) 0 30),
                    ValueInstr (UnOp 4 MUL (FieldAddr 3 (Alloc 0) 0 30) 31),
                    ValueInstr (FieldAddr 5 (Alloc 0) 1 40),
                    ValueInstr (UnOp 6 MUL (FieldAddr 5 (Alloc 0) 1 40) 41),
                    CallInstr False OtherCallee,
                    JumpInstr],
          Succs = [2]\<rparr>,
         \<lparr>Instrs = [ReturnInstr], Succs = []\<rparr>],
      RecvStruct = True, LocalsHeap = [False], DomPreorder = [0, 1, 2]\<rparr>"



section \<open>Properties of the unconditional loop exit rule\<close>

lemma clear_exit_kills:
  "clear_exit L loop n ue = (if kills L loop n then (False, None) else (True, ue))"
  by (cases n) (auto simp: clear_exit_def targets_def split: token.splits option.splits)

lemma inspect_clear_exit:
  "inspect (clear_exit L loop) n ue = (if list_ex (kills L loop) (nodes n) then None else ue)"
proof (induction n arbitrary: ue rule: measure_induct_rule [of size])
  case (less n)
  have folded: "fold (inspect (clear_exit L loop)) cs ue' =
      (if list_ex (\<lambda>c. list_ex (kills L loop) (nodes c)) cs then None else ue')"
    if "set cs \<subseteq> set (children n)" for cs ue'
    using that
  proof (induction cs arbitrary: ue')
    case Nil
    then show ?case by simp
  next
    case (Cons c cs)
    then have "size c < size n" by (auto dest: children_smaller)
    then show ?case using Cons less.IH [of c] by auto
  qed
  show ?case
    by (subst inspect.simps, subst nodes.simps)
       (auto simp: clear_exit_kills folded list_ex_iff)
qed

lemma fold_inspect_clear_exit:
  "fold (inspect (clear_exit L loop)) cs ue =
     (if list_ex (\<lambda>c. list_ex (kills L loop) (nodes c)) cs then None else ue)"
  by (induction cs arbitrary: ue) (auto simp: inspect_clear_exit)

lemma scan_body_eq:
  "scan_body L loop body (ue, hb) =
     (if list_ex (is_continue L loop) body then None
      else Some (if filter (is_exit L loop) body = [] then ue
                 else Some (last (filter (is_exit L loop) body)),
                 hb \<or> list_ex is_branching body))"
proof (induction body arbitrary: ue hb)
  case Nil
  then show ?case by simp
next
  case (Cons s body)
  show ?case
    by (cases s) (auto simp: Cons split: token.splits)
qed





text \<open>
  The callback returns false for a loop without a direct exit statement, and \<^verbatim>\<open>ast.Inspect\<close>
  then does not descend: a loop nested in such a loop is not looked at, although the same
  loop on its own is flagged.
\<close>
lemma nested_loop_not_visited:
  "CheckIneffectiveLoop
     (OtherNode [ForStmt 1 [] [OtherNode [], ForStmt 2 [] [IfStmt [], ReturnStmt 7 []]]]) = []
   \<and> CheckIneffectiveLoop (OtherNode [ForStmt 2 [] [IfStmt [], ReturnStmt 7 []]]) = [7]"
  by (simp add: CheckIneffectiveLoop_def inspect.simps check_loop_def record_label_def
      clear_exit_def)

lemma check_loop_adds:
  "snd (check_loop L n diags) = diags
   \<or> (\<exists>body e. loop_body n = Some body \<and> e \<in> set body \<and> is_exit L n e
         \<and> snd (check_loop L n diags) = diags @ [node_pos e])"
proof (cases "loop_body n")
  case None
  then show ?thesis by (simp add: check_loop_def)
next
  case (Some body)
  let ?exits = "filter (is_exit L n) body"
  have "last ?exits \<in> set ?exits" if "?exits \<noteq> []"
    using that by (rule last_in_set)
  then have ex: "\<exists>e. e \<in> set body \<and> is_exit L n e \<and> last ?exits = e" if "?exits \<noteq> []"
    using that by auto
  show ?thesis
  proof (cases "snd (check_loop L n diags) = diags")
    case True
    then show ?thesis by simp
  next
    case False
    then have "?exits \<noteq> [] \<and> snd (check_loop L n diags) = diags @ [node_pos (last ?exits)]"
      using Some
      by (auto simp: check_loop_def scan_body_eq fold_inspect_clear_exit
          split: option.splits if_splits)
    then show ?thesis using ex Some by auto
  qed
qed

lemma nodes_self: "n \<in> set (nodes n)"
  by (subst nodes.simps) simp

lemma nodes_child: "c \<in> set (children n) \<Longrightarrow> m \<in> set (nodes c) \<Longrightarrow> m \<in> set (nodes n)"
  by (subst nodes.simps) auto

lemma exit_positions_child:
  "c \<in> set (children n) \<Longrightarrow> exit_positions L c \<subseteq> exit_positions L n"
  unfolding exit_positions_def using nodes_child by blast

lemma inspect_check_loop_positions:
  "set (inspect (check_loop L) n diags) \<subseteq> set diags \<union> exit_positions L n"
proof (induction n arbitrary: diags rule: measure_induct_rule [of size])
  case (less n)
  have folded: "set (fold (inspect (check_loop L)) cs ds) \<subseteq> set ds \<union> exit_positions L n"
    if "set cs \<subseteq> set (children n)" for cs ds
    using that
  proof (induction cs arbitrary: ds)
    case Nil
    then show ?case by simp
  next
    case (Cons c cs)
    then have c: "c \<in> set (children n)" by simp
    then have "set (inspect (check_loop L) c ds) \<subseteq> set ds \<union> exit_positions L c"
      using less.IH [of c ds] children_smaller by simp
    then have "set (inspect (check_loop L) c ds) \<subseteq> set ds \<union> exit_positions L n"
      using exit_positions_child [OF c] by blast
    moreover have "set (fold (inspect (check_loop L)) cs (inspect (check_loop L) c ds))
        \<subseteq> set (inspect (check_loop L) c ds) \<union> exit_positions L n"
      using Cons by simp
    ultimately show ?case by auto
  qed
  obtain go ds where r: "check_loop L n diags = (go, ds)" by (cases "check_loop L n diags")
  have ds: "set ds \<subseteq> set diags \<union> exit_positions L n"
  proof (cases "ds = diags")
    case True
    then show ?thesis by simp
  next
    case False
    then obtain body e where e: "loop_body n = Some body" "e \<in> set body" "is_exit L n e"
      "ds = diags @ [node_pos e]"
      using check_loop_adds [of L n diags] r by auto
    have "node_pos e \<in> exit_positions L n"
      unfolding exit_positions_def using e(1-3) nodes_self [of n] by blast
    then show ?thesis using e(4) by auto
  qed
  show ?case
    using r ds folded [of "children n" ds]
    by (subst inspect.simps) (auto split: bool.splits)
qed

text \<open>
  C9. For a range statement over an operand whose underlying type is a map the callback
  reports nothing, whatever the body is: the diagnostics after visiting the loop are those
  that visiting its children produces, and \<open>loop_body\<close> gives no body for it. Every
  diagnostic of a traversal is at a direct exit statement of a body that \<open>loop_body\<close>
  gives, so none is ever reported for the statements of the body of a range over a map.
\<close>
theorem map_range_never_flagged:
  "check_loop L (RangeStmt p MapType pre body) diags = (True, diags)
   \<and> inspect (check_loop L) (RangeStmt p MapType pre body) diags
       = fold (inspect (check_loop L)) (pre @ body) diags
   \<and> loop_body (RangeStmt p MapType pre body) = None
   \<and> set (inspect (check_loop L) n diags) \<subseteq> set diags \<union> exit_positions L n"
  using inspect_check_loop_positions [of L n diags]
  by (simp add: check_loop_def inspect.simps [of _ "RangeStmt p MapType pre body"])

theorem map_range_never_flagged_witness:
  "inspect (check_loop Map.empty) (RangeStmt 1 MapType [] [IfStmt [], ReturnStmt 7 []]) [] = []"
  using map_range_never_flagged [where L = Map.empty and p = 1 and pre = "[]"
      and body = "[IfStmt [], ReturnStmt 7 []]" and diags = "[]"
      and n = "RangeStmt 1 MapType [] [IfStmt [], ReturnStmt 7 []]"]
  by (simp add: inspect.simps check_loop_def)

section \<open>Properties of the infinite recursion rule\<close>

lemma ex_less_Cons:
  "(\<exists>k < length (x # xs). P k) \<longleftrightarrow> P 0 \<or> (\<exists>k < length xs. P (Suc k))"
  by (auto simp: less_Suc_eq_0_disj)

lemma canReturn_iff:
  "canReturn D block j bs \<longleftrightarrow> (\<exists>k < length bs. \<not> D block (j + k) \<and> ends_in_return (bs ! k))"
proof (induction bs arbitrary: j)
  case Nil
  then show ?case by simp
next
  case (Cons b bs)
  show ?case
    by (subst ex_less_Cons) (auto simp: Cons)
qed

lemma check_instrs_iff:
  "(b, i) \<in> set (check_instrs D f block j is) \<longleftrightarrow>
     b = block \<and> (\<exists>k < length is. i = j + k \<and> self_call f (is ! k))
       \<and> \<not> canReturn D block 0 (Blocks f)"
proof (induction "is" arbitrary: j)
  case Nil
  then show ?case by simp
next
  case (Cons x xs)
  show ?case
    by (subst ex_less_Cons) (auto simp: Cons)
qed

lemma check_blocks_iff:
  "(b, i) \<in> set (check_blocks D f j bs) \<longleftrightarrow>
     (\<exists>k < length bs. b = j + k \<and> i < length (Instrs (bs ! k))
        \<and> self_call f (Instrs (bs ! k) ! i)) \<and> \<not> canReturn D b 0 (Blocks f)"
proof (induction bs arbitrary: j)
  case Nil
  then show ?case by simp
next
  case (Cons x xs)
  show ?case
    by (subst ex_less_Cons) (auto simp: Cons check_instrs_iff)
qed

text \<open>
  C3, as the code has it. The call at instruction \<open>i\<close> of block \<open>b\<close> is flagged if and only
  if it is a direct call of the function itself and no block that is not dominated by \<open>b\<close>
  ends in a return. This holds for whatever relation \<^verbatim>\<open>Dominates\<close> computes.
\<close>
theorem infinite_recursion_flagged:
  "(b, i) \<in> set (CheckInfiniteRecursion D f) \<longleftrightarrow>
     b < length (Blocks f) \<and> i < length (Instrs (Blocks f ! b))
     \<and> self_call f (Instrs (Blocks f ! b) ! i)
     \<and> (\<forall>k < length (Blocks f). \<not> D b k \<longrightarrow> \<not> ends_in_return (Blocks f ! k))"
  by (auto simp: CheckInfiniteRecursion_def check_blocks_iff canReturn_iff)

theorem infinite_recursion_flagged_witness:
  "(0, 0) \<in> set (CheckInfiniteRecursion (dominates recursion_example) recursion_example)"
proof -
  have "\<forall>k < length (Blocks recursion_example). dominates recursion_example 0 k"
    by (simp add: recursion_example_def dominates_def)
  then show ?thesis
    using infinite_recursion_flagged [of 0 0 "dominates recursion_example" recursion_example]
    by (simp add: recursion_example_def self_call_def)
qed

text \<open>
  C3 as stated fails in its second half: in \<open>recursion_example\<close> a path forward from the
  block of the recursive call reaches the return in block 2, and the call is flagged all
  the same, because the entry block dominates every block.
\<close>
theorem infinite_recursion_counterexample:
  "reaches_return recursion_example 0
   \<and> CheckInfiniteRecursion (dominates recursion_example) recursion_example = [(0, 0)]"
  by code_simp

section \<open>Properties of constant resolution\<close>

lemma uniq_loop_remdups_adj: "uniq_loop (ys @ [y]) rest = ys @ remdups_adj (y # rest)"
proof (induction rest arbitrary: ys y)
  case Nil
  then show ?case by simp
next
  case (Cons v rest)
  show ?case
  proof (cases "v = y")
    case True
    then show ?thesis using Cons [of ys y] by simp
  next
    case False
    then show ?thesis using Cons [of "ys @ [y]" v] by simp
  qed
qed

lemma uniq_out_remdups_adj: "uniq_out out = remdups_adj out"
proof (cases out rule: uniq_out.cases)
  case (1 x y rest)
  then show ?thesis using uniq_loop_remdups_adj [of "[]" x "y # rest"] by simp
qed simp_all

lemma set_uniq_out [simp]: "set (uniq_out out) = set out"
  by (simp add: uniq_out_remdups_adj)

lemma remdups_adj_idem: "remdups_adj (remdups_adj xs) = remdups_adj xs"
proof (induction xs)
  case Nil
  then show ?case by simp
next
  case (Cons x xs)
  then show ?case
    by (cases "remdups_adj xs") (auto simp: remdups_adj_Cons split: list.splits if_splits)
qed

lemma uniq_out_idem [simp]: "uniq_out (uniq_out out) = uniq_out out"
  by (simp add: uniq_out_remdups_adj remdups_adj_idem)

lemma covered_mono:
  "covered V C v \<Longrightarrow> V \<subseteq> V' \<Longrightarrow> C \<subseteq> C' \<Longrightarrow> covered V' C' v"
  by (induction V C v rule: covered.induct) auto


lemma inv_lift_convert:
  "resolution_inv P [x] out vis out' True vis' \<Longrightarrow>
     resolution_inv P [Convert x] out vis (uniq_out out') True vis'"
  unfolding resolution_inv_def by (auto intro: reaches.through_convert)

lemma inv_fail_convert:
  "resolution_inv P [x] out vis out' False vis' \<Longrightarrow>
     resolution_inv P [Convert x] out vis [] False vis'"
  unfolding resolution_inv_def unknown_def by (auto intro: reaches.through_convert)

lemma inv_lift_phi:
  assumes "resolution_inv P (Operands P n) out (insert n vis) out' True vis'"
  shows "resolution_inv P [Phi n] out vis (uniq_out out') True vis'"
  using assms unfolding resolution_inv_def
  by (auto intro: reaches.through_phi)

lemma inv_fail_phi:
  assumes "resolution_inv P (Operands P n) out (insert n vis) out' False vis'"
  shows "resolution_inv P [Phi n] out vis [] False vis'"
  using assms unfolding resolution_inv_def unknown_def
  by (auto intro: reaches.through_phi)

lemma inv_fail_head:
  "resolution_inv P [v] out vis out1 False vis1 \<Longrightarrow>
     resolution_inv P (v # vs) out vis [] False vis1"
  unfolding resolution_inv_def by auto

lemma inv_seq:
  assumes "resolution_inv P [v] out vis out1 True vis1"
    and "resolution_inv P vs out1 vis1 out2 ok vis2"
  shows "resolution_inv P (v # vs) out vis out2 ok vis2"
proof (cases ok)
  case False
  then show ?thesis using assms unfolding resolution_inv_def by auto
next
  case True
  have sub: "vis1 \<subseteq> vis2" "set out1 \<subseteq> set out2"
    using assms(2) True unfolding resolution_inv_def by auto
  have mono: "covered vis2 (set out2) x" if "covered vis1 (set out1) x" for x
    using that sub by (rule covered_mono)
  have new: "n \<in> vis1 - vis \<or> n \<in> vis2 - vis1" if "n \<in> vis2 - vis" for n
    using that by auto
  show ?thesis
    using assms True mono unfolding resolution_inv_def
    by (auto dest!: new)
qed


lemma consts_fn_inv:
  "consts_fn P fuel v out vis = Some (out', ok, vis') \<Longrightarrow> resolution_inv P [v] out vis out' ok vis'"
  "phi_operands P fuel vs out vis = Some (out', ok, vis') \<Longrightarrow> resolution_inv P vs out vis out' ok vis'"
proof (induction P fuel v out vis and P fuel vs out vis arbitrary: out' ok vis' and out' ok vis'
    rule: consts_fn_phi_operands.induct)
  case (1 P fuel n out visitedPhis)
  show ?case
  proof (cases "n \<in> visitedPhis")
    case True
    then show ?thesis using "1.prems" by (auto simp: resolution_inv_def)
  next
    case unvisited: False
    show ?thesis
    proof (cases "map_of P n")
      case None
      then show ?thesis using "1.prems" unvisited
        by (auto simp: resolution_inv_def Operands_def)
    next
      case (Some ops)
      then obtain fuel' where fuel: "fuel = Suc fuel'"
        using "1.prems" unvisited by (cases fuel) auto
      obtain o1 ok1 v1 where
        r: "phi_operands P fuel' (Operands P n) out (insert n visitedPhis) = Some (o1, ok1, v1)"
        using "1.prems" unvisited Some fuel by (auto split: option.splits)
      have inv: "resolution_inv P (Operands P n) out (insert n visitedPhis) o1 ok1 v1"
        using "1.IH" [OF unvisited _ fuel r] Some by simp
      show ?thesis
      proof (cases ok1)
        case True
        then show ?thesis
          using "1.prems" unvisited Some fuel r inv inv_lift_phi [of P n out visitedPhis o1 v1]
          by auto
      next
        case False
        then show ?thesis
          using "1.prems" unvisited Some fuel r inv inv_fail_phi [of P n out visitedPhis o1 v1]
          by auto
      qed
    qed
  qed
next
  case (2 P fuel c out visitedPhis)
  then show ?case by (auto simp: resolution_inv_def intro: reaches.here)
next
  case (3 P fuel x out visitedPhis)
  obtain o1 ok1 v1 where r: "consts_fn P fuel x out visitedPhis = Some (o1, ok1, v1)"
    using "3.prems" by (auto split: option.splits)
  have inv: "resolution_inv P [x] out visitedPhis o1 ok1 v1"
    using "3.IH" [OF r] .
  show ?case
    using "3.prems" r inv inv_lift_convert [of P x out visitedPhis o1 v1]
      inv_fail_convert [of P x out visitedPhis o1 v1]
    by (cases ok1) auto
next
  case (4 P fuel op x y out visitedPhis)
  have "unknown P (BinOp op x y)"
    unfolding unknown_def by (rule exI [of _ "BinOp op x y"]) (simp add: reaches.here)
  then show ?case using "4.prems" by (auto simp: resolution_inv_def)
next
  case (5 P fuel out visitedPhis)
  have "unknown P OtherValue"
    unfolding unknown_def by (rule exI [of _ OtherValue]) (simp add: reaches.here)
  then show ?case using "5.prems" by (auto simp: resolution_inv_def)
next
  case (6 P fuel out visitedPhis)
  then show ?case by (auto simp: resolution_inv_def)
next
  case (7 P fuel phival vals out visitedPhis)
  obtain o1 ok1 v1 where r: "consts_fn P fuel phival out visitedPhis = Some (o1, ok1, v1)"
    using "7.prems" by (auto split: option.splits)
  have inv1: "resolution_inv P [phival] out visitedPhis o1 ok1 v1"
    using "7.IH"(1) [OF r] .
  show ?case
  proof (cases ok1)
    case False
    then show ?thesis
      using "7.prems" r inv1 inv_fail_head [of P phival out visitedPhis o1 v1 vals] by auto
  next
    case True
    have rest: "phi_operands P fuel vals o1 v1 = Some (out', ok, vis')"
      using "7.prems" r True by simp
    have inv2: "resolution_inv P vals o1 v1 out' ok vis'"
      using "7.IH"(2) [OF r _ _ _ rest] True by simp
    show ?thesis using inv_seq [of P phival out visitedPhis o1 v1 vals out' ok vis'] inv1 inv2 True
      by simp
  qed
qed


lemma unvisited_card:
  assumes "map_of P n \<noteq> None" "n \<notin> vis" "card (dom (map_of P) - vis) \<le> fuel"
  shows "\<exists>fuel'. fuel = Suc fuel' \<and> card (dom (map_of P) - insert n vis) \<le> fuel'"
proof -
  have fin: "finite (dom (map_of P) - vis)" by (simp add: finite_dom_map_of)
  have mem: "n \<in> dom (map_of P) - vis" using assms by auto
  have "dom (map_of P) - insert n vis = (dom (map_of P) - vis) - {n}" by auto
  then have "card (dom (map_of P) - insert n vis) = card (dom (map_of P) - vis) - 1"
    using fin mem by simp
  moreover have "0 < card (dom (map_of P) - vis)"
    using fin mem by (auto simp: card_gt_0_iff)
  ultimately show ?thesis using assms(3) by (cases fuel) auto
qed

lemma visited_card:
  assumes "vis \<subseteq> vis'" "card (dom (map_of P) - vis) \<le> fuel"
  shows "card (dom (map_of P) - vis') \<le> fuel"
proof -
  have "card (dom (map_of P) - vis') \<le> card (dom (map_of P) - vis)"
    using assms(1) by (intro card_mono) (auto simp: finite_dom_map_of)
  then show ?thesis using assms(2) by simp
qed

lemma consts_fn_fuel:
  "card (dom (map_of P) - vis) \<le> fuel \<Longrightarrow> consts_fn P fuel v out vis \<noteq> None"
  "card (dom (map_of P) - vis) \<le> fuel \<Longrightarrow> phi_operands P fuel vs out vis \<noteq> None"
proof (induction P fuel v out vis and P fuel vs out vis
    rule: consts_fn_phi_operands.induct)
  case (1 P fuel n out visitedPhis)
  show ?case
  proof (cases "n \<in> visitedPhis \<or> map_of P n = None")
    case True
    then show ?thesis by auto
  next
    case False
    then obtain fuel' where fuel: "fuel = Suc fuel'"
      and le: "card (dom (map_of P) - insert n visitedPhis) \<le> fuel'"
      using unvisited_card [of P n visitedPhis fuel] "1.prems" by auto
    have "phi_operands P fuel' (Operands P n) out (insert n visitedPhis) \<noteq> None"
      using "1.IH" [OF _ _ fuel le] False by simp
    then show ?thesis using False fuel by (auto split: option.splits)
  qed
next
  case (3 P fuel x out visitedPhis)
  then show ?case by (auto split: option.splits)
next
  case (7 P fuel phival vals out visitedPhis)
  have first: "consts_fn P fuel phival out visitedPhis \<noteq> None"
    using "7.IH"(1) "7.prems" by simp
  then obtain o1 ok1 v1 where r: "consts_fn P fuel phival out visitedPhis = Some (o1, ok1, v1)"
    by auto
  have "visitedPhis \<subseteq> v1"
    using consts_fn_inv(1) [OF r] by (simp add: resolution_inv_def)
  then have le: "card (dom (map_of P) - v1) \<le> fuel"
    using visited_card "7.prems" by blast
  show ?case
  proof (cases ok1)
    case True
    then show ?thesis using "7.IH"(2) [OF r _ _ _ le] r by simp
  next
    case False
    then show ?thesis using r by simp
  qed
qed simp_all

lemma card_dom_map_of: "card (dom (map_of P)) \<le> length P"
proof -
  have "card (dom (map_of P)) = card (set (map fst P))" by (simp add: dom_map_of_conv_image_fst)
  also have "\<dots> \<le> length (map fst P)" by (rule card_length)
  finally show ?thesis by simp
qed

lemma constants_of_total: "\<exists>out ok. constants_of P v = Some (out, ok)"
proof -
  have "consts_fn P (length P) v [] {} \<noteq> None"
    using consts_fn_fuel(1) [of P "{}" "length P" v "[]"] card_dom_map_of [of P] by simp
  then show ?thesis by (auto simp: constants_of_def)
qed

lemma covered_closed:
  assumes "reaches P v w" "covered V C v"
    and "\<forall>n \<in> V. \<forall>x \<in> set (Operands P n). covered V C x"
  shows "covered V C w"
  using assms by (induction rule: reaches.induct) auto

lemma covered_not_default: "covered V C w \<Longrightarrow> \<not> is_default w"
  by (cases w) auto

lemma constants_of_sound:
  assumes "constants_of P v = Some (out, ok)"
  shows "(ok \<longleftrightarrow> \<not> unknown P v) \<and> (ok \<longrightarrow> set out = {c. reaches P v (Const c)})
         \<and> (\<not> ok \<longrightarrow> out = [])"
proof -
  obtain vis where r: "consts_fn P (length P) v [] {} = Some (out, ok, vis)"
    using assms by (auto simp: constants_of_def split: option.splits)
  have inv: "resolution_inv P [v] [] {} out ok vis"
    using consts_fn_inv(1) [OF r] .
  show ?thesis
  proof (cases ok)
    case False
    then show ?thesis using inv by (auto simp: resolution_inv_def)
  next
    case True
    have cov: "covered vis (set out) v"
      and closed: "\<forall>n \<in> vis. \<forall>x \<in> set (Operands P n). covered vis (set out) x"
      and sound: "set out \<subseteq> {c. reaches P v (Const c)}"
      using inv True by (auto simp: resolution_inv_def)
    have all: "covered vis (set out) w" if "reaches P v w" for w
      using covered_closed [OF that cov closed] .
    have "\<not> unknown P v"
      unfolding unknown_def using all covered_not_default by blast
    moreover have "c \<in> set out" if "reaches P v (Const c)" for c
      using all [OF that] by simp
    ultimately show ?thesis using True sound by auto
  qed
qed


lemma consts_fn_result_shape:
  "consts_fn P fuel v out vis = Some (out', ok, vis') \<Longrightarrow>
     (ok \<longrightarrow> uniq_out out' = out') \<and> (\<not> ok \<longrightarrow> out' = [])"
  by (cases v; cases fuel) (auto split: option.splits if_splits)

lemma consts_fn_convert:
  "consts_fn P fuel (Convert x) out vis = consts_fn P fuel x out vis"
proof (cases "consts_fn P fuel x out vis")
  case None
  then show ?thesis by simp
next
  case (Some r)
  obtain o1 ok1 v1 where r: "r = (o1, ok1, v1)" by (cases r) auto
  show ?thesis
    using Some consts_fn_result_shape [of P fuel x out vis o1 ok1 v1] unfolding r
    by (cases ok1) auto
qed

lemma resolved_iff: "resolved P v \<longleftrightarrow> \<not> unknown P v"
  using constants_of_total [of P v] constants_of_sound [of P v]
  by (auto simp: resolved_def)

lemma constant_set_eq: "resolved P v \<Longrightarrow> constant_set P v = {c. reaches P v (Const c)}"
  using constants_of_total [of P v] constants_of_sound [of P v]
  by (auto simp: resolved_def constant_set_def)

lemma reaches_phi_iff:
  "reaches P (Phi n) w \<longleftrightarrow> w = Phi n \<or> (\<exists>x \<in> set (Operands P n). reaches P x w)"
  by (auto elim: reaches.cases intro: reaches.intros)

lemma unknown_phi: "unknown P (Phi n) \<longleftrightarrow> (\<exists>x \<in> set (Operands P n). unknown P x)"
  unfolding unknown_def by (subst reaches_phi_iff) auto

text \<open>
  C2. A query on a constant returns that constant. A query on a conversion returns what
  the query on its operand returns. A query on a phi succeeds exactly when the queries on
  all its operands succeed, and then its constants are, as a set, the union of theirs. A
  phi that is already in \<open>visitedPhis\<close> adds nothing to \<open>out\<close> and is not entered again. A
  value of any other kind fails. Every query returns, and a failed query returns no
  constants.
\<close>
theorem consts_resolution:
  "constants_of P (Const c) = Some ([c], True)
   \<and> constants_of P (Convert x) = constants_of P x
   \<and> (resolved P (Phi n) \<longleftrightarrow> (\<forall>x \<in> set (Operands P n). resolved P x))
   \<and> (resolved P (Phi n) \<longrightarrow> constant_set P (Phi n) = (\<Union>x \<in> set (Operands P n). constant_set P x))
   \<and> (n \<in> visitedPhis \<longrightarrow>
        consts_fn P fuel (Phi n) out visitedPhis = Some (uniq_out out, True, visitedPhis)
        \<and> set (uniq_out out) = set out)
   \<and> constants_of P (BinOp op a b) = Some ([], False)
   \<and> constants_of P OtherValue = Some ([], False)
   \<and> (\<exists>cs ok. constants_of P v = Some (cs, ok) \<and> (\<not> ok \<longrightarrow> cs = []))"
proof -
  have phi_res: "resolved P (Phi n) \<longleftrightarrow> (\<forall>x \<in> set (Operands P n). resolved P x)"
    by (simp add: resolved_iff unknown_phi)
  have phi_set: "constant_set P (Phi n) = (\<Union>x \<in> set (Operands P n). constant_set P x)"
    if "resolved P (Phi n)"
  proof -
    have each: "constant_set P x = {c. reaches P x (Const c)}" if "x \<in> set (Operands P n)" for x
      using that \<open>resolved P (Phi n)\<close> phi_res constant_set_eq by blast
    have "constant_set P (Phi n) = {c. reaches P (Phi n) (Const c)}"
      using that by (rule constant_set_eq)
    also have "\<dots> = (\<Union>x \<in> set (Operands P n). {c. reaches P x (Const c)})"
      by (subst reaches_phi_iff) auto
    also have "\<dots> = (\<Union>x \<in> set (Operands P n). constant_set P x)"
      using each by simp
    finally show ?thesis .
  qed
  have total: "\<exists>cs ok. constants_of P v = Some (cs, ok) \<and> (\<not> ok \<longrightarrow> cs = [])"
    using constants_of_total [of P v] constants_of_sound [of P v] by auto
  have conv: "constants_of P (Convert x) = constants_of P x"
    by (simp only: constants_of_def consts_fn_convert)
  have leaf: "constants_of P (Const c) = Some ([c], True)"
    "constants_of P (BinOp op a b) = Some ([], False)"
    "constants_of P OtherValue = Some ([], False)"
    by (simp_all add: constants_of_def)
  have seen: "consts_fn P fuel (Phi n) out visitedPhis = Some (uniq_out out, True, visitedPhis)
      \<and> set (uniq_out out) = set out" if "n \<in> visitedPhis"
    using that by simp
  show ?thesis
    using phi_res phi_set total conv leaf seen by blast
qed


theorem consts_resolution_witness:
  "resolved [(''t1'', [Const (Some (1::int)), Convert (Const (Some 2))])] (Phi ''t1'')
   \<and> constant_set [(''t1'', [Const (Some (1::int)), Convert (Const (Some 2))])] (Phi ''t1'')
       = {Some 1, Some 2}
   \<and> \<not> resolved [(''t1'', [Const (Some (1::int)), OtherValue])] (Phi ''t1'')"
  using consts_resolution [of "[(''t1'', [Const (Some (1::int)), Convert (Const (Some 2))])]"
      _ _ "''t1''" "{}" 0 "[]" EQL OtherValue OtherValue OtherValue]
    consts_resolution [of "[(''t1'', [Const (Some (1::int)), OtherValue])]"
      _ _ "''t1''" "{}" 0 "[]" EQL OtherValue OtherValue OtherValue]
  by (simp add: resolved_def constant_set_def constants_of_def Operands_def)

lemma consts_fn_cycle_example:
  "constants_of [(''t1'', [Const (Some (1::int)), Phi ''t2'']),
                 (''t2'', [Phi ''t1'', Const (Some 2)])] (Phi ''t1'')
     = Some ([Some 1, Some 2], True)"
  by (simp add: constants_of_def Operands_def)

text \<open>
  C6 at a phi whose operands are the constants 1, 2 and 1: the loop that builds \<open>uniq\<close>
  compares a constant only with the last one kept, so the second 1 stays.
\<close>
theorem consts_keeps_duplicate:
  "constants_of [(''t0'', [Const (Some (1::int)), Const (Some 2), Const (Some 1)])] (Phi ''t0'')
     = Some ([Some 1, Some 2, Some 1], True)
   \<and> \<not> distinct [Some (1::int), Some 2, Some 1]"
  by (simp add: constants_of_def Operands_def)

theorem consts_keeps_duplicate_witness:
  "constants_of [(''t0'', [Const (Some (1::int)), Const (Some 2), Const (Some 1)])] (Phi ''t0'')
     \<noteq> Some ([Some 1, Some 2], True)"
  using consts_keeps_duplicate by simp

section \<open>Properties of the tautology rule\<close>

lemma count_ys_defined:
  assumes "\<forall>y \<in> set ys. pair_true C op x y \<noteq> None"
  shows "count_ys C op x ys t = Inr (t + length (filter (\<lambda>y. pair_true C op x y = Some True) ys))"
  using assms
proof (induction ys arbitrary: t)
  case Nil
  then show ?case by simp
next
  case (Cons y ys)
  then obtain b where b: "pair_true C op x y = Some b" by auto
  show ?case using Cons b by (cases b) auto
qed

lemma count_xs_defined:
  assumes "\<forall>x \<in> set xs. \<forall>y \<in> set ys. pair_true C op x y \<noteq> None"
  shows "count_xs C op xs ys t =
     Inr (t + length (filter (\<lambda>(x, y). pair_true C op x y = Some True) (List.product xs ys)))"
  using assms
proof (induction xs arbitrary: t)
  case Nil
  then show ?case by simp
next
  case (Cons x xs)
  have "count_ys C op x ys t =
      Inr (t + length (filter (\<lambda>y. pair_true C op x y = Some True) ys))"
    using Cons.prems by (intro count_ys_defined) simp
  then show ?case using Cons by (simp add: filter_map o_def)
qed

lemma length_filter_full: "length (filter Q zs) = length zs \<longleftrightarrow> (\<forall>z \<in> set zs. Q z)"
proof (induction zs)
  case Nil
  then show ?case by simp
next
  case (Cons z zs)
  have le: "length (filter Q zs) \<le> length zs" by simp
  show ?case
  proof (cases "Q z")
    case True
    then show ?thesis using Cons by simp
  next
    case False
    have "length (filter Q zs) \<noteq> Suc (length zs)" using le by linarith
    then show ?thesis using False by simp
  qed
qed

lemma tautology_counts:
  assumes "binop_op \<in> {GTR, LSS, EQL, NEQ, LEQ, GEQ}"
    and "constants_of P X = Some (xs, True)" and "constants_of P Y = Some (ys, True)"
    and "xs \<noteq> []" and "ys \<noteq> []"
    and "\<forall>x \<in> set xs. \<forall>y \<in> set ys. pair_true C ssa_op x y \<noteq> None"
  shows "CheckPredeterminedBooleanExprs C P binop_op (Some (BinOp ssa_op X Y)) =
     Some (Inr
       (if \<forall>x \<in> set xs. \<forall>y \<in> set ys. pair_true C ssa_op x y = Some True
        then [\<lparr>always = True, left_consts = xs, operator = binop_op, right_consts = ys\<rparr>]
        else if \<forall>x \<in> set xs. \<forall>y \<in> set ys. pair_true C ssa_op x y = Some False
        then [\<lparr>always = False, left_consts = xs, operator = binop_op, right_consts = ys\<rparr>]
        else []))"
proof -
  let ?Q = "\<lambda>(x, y). pair_true C ssa_op x y = Some True"
  let ?n = "length (filter ?Q (List.product xs ys))"
  have count: "count_xs C ssa_op xs ys 0 = Inr ?n"
    using count_xs_defined [OF assms(6), of 0] by simp
  have full: "?n = length xs * length ys \<longleftrightarrow>
      (\<forall>x \<in> set xs. \<forall>y \<in> set ys. pair_true C ssa_op x y = Some True)"
    using length_filter_full [of ?Q "List.product xs ys"] by auto
  have none: "?n = 0 \<longleftrightarrow> (\<forall>x \<in> set xs. \<forall>y \<in> set ys. pair_true C ssa_op x y = Some False)"
    using assms(6) by (auto simp: filter_empty_conv) (metis (full_types) option.exhaust)+
  have ne: "\<not> ((\<forall>x \<in> set xs. \<forall>y \<in> set ys. pair_true C ssa_op x y = Some True)
      \<and> (\<forall>x \<in> set xs. \<forall>y \<in> set ys. pair_true C ssa_op x y = Some False))"
    using assms(4,5) by (cases xs; cases ys) auto
  have pos: "?n \<noteq> 0" if "\<forall>x \<in> set xs. \<forall>y \<in> set ys. pair_true C ssa_op x y = Some True"
    using that none ne by blast
  have unfold: "CheckPredeterminedBooleanExprs C P binop_op (Some (BinOp ssa_op X Y)) =
      (if ?n = 0 \<or> ?n = length xs * length ys
       then Some (Inr [\<lparr>always = (?n \<noteq> 0), left_consts = xs, operator = binop_op,
                        right_consts = ys\<rparr>])
       else Some (Inr []))"
    using assms(1-5) count by (simp add: CheckPredeterminedBooleanExprs_def)
  show ?thesis
  proof (cases "\<forall>x \<in> set xs. \<forall>y \<in> set ys. pair_true C ssa_op x y = Some True")
    case True
    then show ?thesis using unfold full pos by simp
  next
    case nt: False
    show ?thesis
    proof (cases "\<forall>x \<in> set xs. \<forall>y \<in> set ys. pair_true C ssa_op x y = Some False")
      case True
      then show ?thesis using unfold none nt by simp
    next
      case False
      then show ?thesis using unfold none full nt by simp
    qed
  qed
qed


lemma ex_bool [simp]: "\<exists>b. \<not> b" "\<exists>b::bool. b"
  by (rule exI [of _ False], simp) (rule exI [of _ True], simp)

lemma unresolved_not_flagged:
  assumes "\<not> resolved P X \<or> \<not> resolved P Y"
  shows "CheckPredeterminedBooleanExprs C P binop_op (Some (BinOp ssa_op X Y)) = Some (Inr [])"
proof -
  obtain xs ok1 where x: "constants_of P X = Some (xs, ok1)"
    using constants_of_total by blast
  obtain ys ok2 where y: "constants_of P Y = Some (ys, ok2)"
    using constants_of_total by blast
  have "\<not> ok1 \<or> \<not> ok2" using assms x y by (simp add: resolved_def)
  then show ?thesis using x y by (auto simp: CheckPredeterminedBooleanExprs_def)
qed

text \<open>
  Where \<^verbatim>\<open>constant.Compare\<close> returns on every pair it is called on: for a comparison
  (\<^verbatim>\<open>>\<close>, \<^verbatim>\<open><\<close>, \<^verbatim>\<open>==\<close>, \<^verbatim>\<open>!=\<close>, \<^verbatim>\<open><=\<close>, \<^verbatim>\<open>>=\<close>) whose operands both resolve to nonempty lists of
  constants, the rule reports one diagnostic "always true" when every pair of constants
  counts as true, one diagnostic "always false" when every pair counts as false, and
  nothing otherwise; the diagnostic names the outcome, the operator and both lists. The
  outcome of a pair is \<open>pair_true\<close>. When an operand does not resolve, nothing is reported.
  With \<open>x\<close> the constant 5, \<open>x == x\<close> is "always true"; with \<open>x\<close> a phi of 1 and 2 and \<open>y\<close>
  the constant 3, \<open>x == y\<close> is "always false".
\<close>
lemma tautology_rule:
  "(binop_op \<in> {GTR, LSS, EQL, NEQ, LEQ, GEQ}
      \<and> constants_of P X = Some (xs, True) \<and> constants_of P Y = Some (ys, True)
      \<and> xs \<noteq> [] \<and> ys \<noteq> []
      \<and> (\<forall>x \<in> set xs. \<forall>y \<in> set ys. pair_true C ssa_op x y \<noteq> None)
    \<longrightarrow> CheckPredeterminedBooleanExprs C P binop_op (Some (BinOp ssa_op X Y)) =
       Some (Inr
         (if \<forall>x \<in> set xs. \<forall>y \<in> set ys. pair_true C ssa_op x y = Some True
          then [\<lparr>always = True, left_consts = xs, operator = binop_op, right_consts = ys\<rparr>]
          else if \<forall>x \<in> set xs. \<forall>y \<in> set ys. pair_true C ssa_op x y = Some False
          then [\<lparr>always = False, left_consts = xs, operator = binop_op, right_consts = ys\<rparr>]
          else [])))
   \<and> (\<not> resolved P X \<or> \<not> resolved P Y
    \<longrightarrow> CheckPredeterminedBooleanExprs C P binop_op (Some (BinOp ssa_op X Y)) = Some (Inr []))
   \<and> (D (5::int) EQL (Some 5) = Some True
    \<longrightarrow> CheckPredeterminedBooleanExprs D [] EQL
          (Some (BinOp EQL (Const (Some 5)) (Const (Some 5)))) =
       Some (Inr [\<lparr>always = True, left_consts = [Some 5], operator = EQL,
                   right_consts = [Some 5]\<rparr>]))
   \<and> (D 1 EQL (Some 3) = Some False \<and> D 2 EQL (Some 3) = Some False
    \<longrightarrow> CheckPredeterminedBooleanExprs D [(''x'', [Const (Some 1), Const (Some 2)])] EQL
          (Some (BinOp EQL (Phi ''x'') (Const (Some 3)))) =
       Some (Inr [\<lparr>always = False, left_consts = [Some 1, Some 2], operator = EQL,
                   right_consts = [Some 3]\<rparr>]))"
proof -
  have five: "CheckPredeterminedBooleanExprs D [] EQL
          (Some (BinOp EQL (Const (Some 5)) (Const (Some 5)))) =
       Some (Inr [\<lparr>always = True, left_consts = [Some 5], operator = EQL,
                   right_consts = [Some 5]\<rparr>])"
    if "D (5::int) EQL (Some 5) = Some True"
    using that tautology_counts [where binop_op = EQL and P = "[]" and X = "Const (Some 5)"
        and xs = "[Some 5]" and Y = "Const (Some 5)" and ys = "[Some 5]" and C = D
        and ssa_op = EQL]
    by (simp add: constants_of_def pair_true_def)
  have three: "CheckPredeterminedBooleanExprs D [(''x'', [Const (Some 1), Const (Some 2)])] EQL
          (Some (BinOp EQL (Phi ''x'') (Const (Some 3)))) =
       Some (Inr [\<lparr>always = False, left_consts = [Some 1, Some 2], operator = EQL,
                   right_consts = [Some 3]\<rparr>])"
    if "D 1 EQL (Some 3) = Some False" "D 2 EQL (Some 3) = Some False"
    using that tautology_counts [where binop_op = EQL
        and P = "[(''x'', [Const (Some 1), Const (Some 2)])]" and X = "Phi ''x''"
        and xs = "[Some 1, Some 2]" and Y = "Const (Some 3)" and ys = "[Some 3]" and C = D
        and ssa_op = EQL]
    by (simp add: constants_of_def pair_true_def Operands_def)
  show ?thesis
    using tautology_counts [where binop_op = binop_op and P = P and X = X and xs = xs
        and Y = Y and ys = ys and C = C and ssa_op = ssa_op]
      unresolved_not_flagged [where P = P and X = X and Y = Y and C = C
        and binop_op = binop_op and ssa_op = ssa_op] five three
    by blast
qed

lemma tautology_rule_witness:
  "CheckPredeterminedBooleanExprs Compare_int [] EQL
      (Some (BinOp EQL (Const (Some 5)) (Const (Some 5)))) =
     Some (Inr [\<lparr>always = True, left_consts = [Some 5], operator = EQL,
                 right_consts = [Some 5]\<rparr>])
   \<and> CheckPredeterminedBooleanExprs Compare_int [(''x'', [Const (Some 1), Const (Some 2)])] EQL
      (Some (BinOp EQL (Phi ''x'') (Const (Some 3)))) =
     Some (Inr [\<lparr>always = False, left_consts = [Some 1, Some 2], operator = EQL,
                 right_consts = [Some 3]\<rparr>])
   \<and> CheckPredeterminedBooleanExprs Compare_int [] EQL
      (Some (BinOp EQL (Const (Some 5)) OtherValue)) = Some (Inr [])
   \<and> CheckPredeterminedBooleanExprs Compare_int [(''x'', [Const (Some 1), Const (Some 3)])] EQL
      (Some (BinOp EQL (Phi ''x'') (Const (Some 3)))) = Some (Inr [])"
  using tautology_rule [where binop_op = EQL
      and P = "[(''x'', [Const (Some 1), Const (Some 3)])]" and X = "Phi ''x''"
      and xs = "[Some 1, Some 3]" and Y = "Const (Some 3)" and ys = "[Some 3]"
      and C = Compare_int and ssa_op = EQL and D = Compare_int]
    tautology_rule [where binop_op = EQL and P = "[]" and X = "Const (Some 5)"
      and xs = "[Some 5]" and Y = OtherValue and ys = "[]" and C = Compare_int
      and ssa_op = EQL and D = Compare_int]
  by (simp add: Compare_int_def constants_of_def Operands_def pair_true_def resolved_def)

text \<open>
  C1 at two comparisons whose operands both resolve to nonempty lists of constants. With
  \<open>x\<close> a phi of 1 and 2 and a nil constant on the right (as in
  \<^verbatim>\<open>x == uintptr(unsafe.Pointer(nil))\<close>) the pairs are not evaluated: the first pair goes to
  \<^verbatim>\<open>constant.Compare\<close> with a nil operand, which panics, and no diagnostic is reported. With
  nil constants on both sides of \<^verbatim>\<open>!=\<close> the pair is counted as true without comparing, and
  the diagnostic names the outcome "always true" for a comparison that is false.
\<close>
theorem tautology_nil_operands:
  "CheckPredeterminedBooleanExprs Compare_int [(''x'', [Const (Some 1), Const (Some 2)])] EQL
      (Some (BinOp EQL (Phi ''x'') (Const None))) = Some (Inl Panic)
   \<and> constants_of [(''x'', [Const (Some (1::int)), Const (Some 2)])] (Phi ''x'')
      = Some ([Some 1, Some 2], True)
   \<and> constants_of [(''x'', [Const (Some (1::int)), Const (Some 2)])] (Const None)
      = Some ([None], True)
   \<and> CheckPredeterminedBooleanExprs Compare_int [] NEQ
      (Some (BinOp NEQ (Const None) (Const None))) =
     Some (Inr [\<lparr>always = True, left_consts = [None], operator = NEQ,
                 right_consts = [None]\<rparr>])"
  by (simp add: CheckPredeterminedBooleanExprs_def constants_of_def Operands_def
      pair_true_def Compare_int_def)

theorem tautology_nil_operands_witness:
  "CheckPredeterminedBooleanExprs Compare_int [(''x'', [Const (Some 1), Const (Some 2)])] EQL
      (Some (BinOp EQL (Phi ''x'') (Const None))) \<noteq> Some (Inr [])
   \<and> CheckPredeterminedBooleanExprs Compare_int [] NEQ
      (Some (BinOp NEQ (Const None) (Const None))) \<noteq>
     Some (Inr [\<lparr>always = False, left_consts = [None], operator = NEQ,
                 right_consts = [None]\<rparr>])"
  using tautology_nil_operands by simp

text \<open>
  C10 at the pair of the constant 0 on the left and a nil constant on the right (as in
  \<^verbatim>\<open>0 == uintptr(unsafe.Pointer(nil))\<close>). Two nil constants count as true and a nil left
  constant with another right constant counts as false, whatever the operator; but the
  rule has no case for a nil right constant after a left constant that is not nil: the
  pair goes to \<^verbatim>\<open>constant.Compare\<close>, which panics on it, and the rule reports nothing.
\<close>
theorem nil_right_operand_compared:
  "pair_true C op None None = Some True
   \<and> pair_true C op None (Some y) = Some False
   \<and> pair_true C op (Some x) None = C x op None
   \<and> CheckPredeterminedBooleanExprs Compare_int [] EQL
        (Some (BinOp EQL (Const (Some 0)) (Const None))) = Some (Inl Panic)"
  by (simp add: pair_true_def CheckPredeterminedBooleanExprs_def constants_of_def
      Compare_int_def)

theorem nil_right_operand_compared_witness:
  "pair_true Compare_int NEQ (Some 0) None = None
   \<and> pair_true Compare_int NEQ None None = Some True
   \<and> CheckPredeterminedBooleanExprs Compare_int [] EQL
        (Some (BinOp EQL (Const (Some 0)) (Const None))) \<noteq> Some (Inr [])"
  using nil_right_operand_compared [where C = Compare_int and op = NEQ and x = 0 and y = 0]
  by (simp add: Compare_int_def)

section \<open>Properties of the ineffective append rule\<close>

lemma feeds_Cons: "feeds G refs r \<Longrightarrow> feeds G (x # refs) r"
  by (induction rule: feeds.induct) (auto intro: feeds.intros)

lemma feeds_referrers:
  assumes "feeds G (Referrers G x) r" "passes G x"
  shows "feeds G (x # refs) r"
  using assms
proof (induction rule: feeds.induct)
  case (direct r)
  have "feeds G (x # refs) x" by (simp add: feeds.direct)
  then show ?case using direct by (auto intro: feeds.through)
next
  case (through r' r)
  then show ?case by (auto intro: feeds.through)
qed

lemma walk_inv_skip:
  assumes "ref \<in> V" "walk_inv G refs (V, u) st'"
  shows "walk_inv G (ref # refs) (V, u) st'"
proof -
  obtain V' u' where st': "st' = (V', u')" by (cases st')
  have f: "\<exists>r. feeds G (ref # refs) r \<and> consumer G r" if "\<exists>r. feeds G refs r \<and> consumer G r"
    using that feeds_Cons by blast
  show ?thesis
    using assms f unfolding st' walk_inv_def by auto
qed

lemma walk_inv_step:
  assumes inv: "walk_inv G refs (insert ref V, u0) st'"
    and A: "u \<longrightarrow> u0" and B: "u0 \<and> \<not> u \<longrightarrow> consumer G ref"
    and C: "\<not> u0 \<longrightarrow> \<not> consumer G ref \<and> \<not> passes G ref"
  shows "walk_inv G (ref # refs) (V, u) st'"
proof -
  obtain V' u' where st': "st' = (V', u')" by (cases st')
  have sub: "insert ref V \<subseteq> V'" "u0 \<longrightarrow> u'"
    using inv unfolding st' walk_inv_def by auto
  have sound: "\<exists>r. feeds G (ref # refs) r \<and> consumer G r" if hu: "u'" "\<not> u"
  proof (cases u0)
    case True
    then have "consumer G ref" using B hu by simp
    moreover have "feeds G (ref # refs) ref" by (simp add: feeds.direct)
    ultimately show ?thesis by blast
  next
    case False
    then have "\<exists>r. feeds G refs r \<and> consumer G r"
      using inv hu unfolding st' walk_inv_def by auto
    then show ?thesis using feeds_Cons by blast
  qed
  have complete: "set (ref # refs) \<subseteq> V'
      \<and> (\<forall>n \<in> V' - V. \<not> consumer G n \<and> (passes G n \<longrightarrow> set (Referrers G n) \<subseteq> V'))"
    if "\<not> u'"
  proof -
    have nu0: "\<not> u0" using that sub by simp
    have i: "set refs \<subseteq> V'"
      "\<forall>n \<in> V' - insert ref V. \<not> consumer G n \<and> (passes G n \<longrightarrow> set (Referrers G n) \<subseteq> V')"
      using inv that unfolding st' walk_inv_def by auto
    have "\<not> consumer G n \<and> (passes G n \<longrightarrow> set (Referrers G n) \<subseteq> V')" if "n \<in> V' - V" for n
    proof (cases "n = ref")
      case True
      then show ?thesis using C nu0 by simp
    next
      case False
      then show ?thesis using i(2) that by blast
    qed
    then show ?thesis using i(1) sub by auto
  qed
  show ?thesis
    unfolding st' walk_inv_def using sub A sound complete by auto
qed

lemma walk_inv_break:
  assumes "consumer G ref"
  shows "walk_inv G (ref # refs) (V, u) (insert ref V, True)"
proof -
  have "feeds G (ref # refs) ref" by (simp add: feeds.direct)
  then have "\<exists>r. feeds G (ref # refs) r \<and> consumer G r" using assms by blast
  then show ?thesis unfolding walk_inv_def by auto
qed

lemma debug_not_consumer: "kind_of G ref = DebugRef \<Longrightarrow> \<not> consumer G ref \<and> \<not> passes G ref"
  by (simp add: consumer_def passes_def isAppend_def)

lemma walk_inv_enter:
  assumes p: "passes G ref" and nv: "ref \<notin> V"
    and a: "walk_inv G (Referrers G ref) (insert ref V, u) (V1, u1)"
    and b: "walk_inv G refs (V1, u1) (V2, u2)"
  shows "walk_inv G (ref # refs) (V, u) (V2, u2)"
proof -
  have nc: "\<not> consumer G ref" using p by (simp add: consumer_def)
  have sub: "insert ref V \<subseteq> V1" "V1 \<subseteq> V2" "u \<longrightarrow> u1" "u1 \<longrightarrow> u2"
    using a b by (auto simp: walk_inv_def)
  have sound: "\<exists>r. feeds G (ref # refs) r \<and> consumer G r" if hu: "u2" "\<not> u"
  proof (cases u1)
    case True
    have "u1 \<and> \<not> u" using True hu by simp
    then have "\<exists>r. feeds G (Referrers G ref) r \<and> consumer G r"
      using a unfolding walk_inv_def by auto
    then show ?thesis using feeds_referrers [OF _ p] by blast
  next
    case False
    then have "u2 \<and> \<not> u1" using hu by simp
    then have "\<exists>r. feeds G refs r \<and> consumer G r"
      using b unfolding walk_inv_def by auto
    then show ?thesis using feeds_Cons by blast
  qed
  have complete: "set (ref # refs) \<subseteq> V2
      \<and> (\<forall>n \<in> V2 - V. \<not> consumer G n \<and> (passes G n \<longrightarrow> set (Referrers G n) \<subseteq> V2))"
    if "\<not> u2"
  proof -
    have nu1: "\<not> u1" using that sub by simp
    have a': "set (Referrers G ref) \<subseteq> V1"
      "\<forall>n \<in> V1 - insert ref V. \<not> consumer G n \<and> (passes G n \<longrightarrow> set (Referrers G n) \<subseteq> V1)"
      using a nu1 unfolding walk_inv_def by auto
    have b': "set refs \<subseteq> V2"
      "\<forall>n \<in> V2 - V1. \<not> consumer G n \<and> (passes G n \<longrightarrow> set (Referrers G n) \<subseteq> V2)"
      using b that unfolding walk_inv_def by auto
    have "\<not> consumer G n \<and> (passes G n \<longrightarrow> set (Referrers G n) \<subseteq> V2)"
      if hn: "n \<in> V2 - V" for n
    proof -
      consider "n = ref" | "n \<in> V1 - insert ref V" | "n \<in> V2 - V1" using hn by blast
      then show ?thesis
      proof cases
        case 1
        then show ?thesis using nc a'(1) sub by auto
      next
        case 2
        then show ?thesis using a'(2) sub by blast
      next
        case 3
        then show ?thesis using b'(2) by blast
      qed
    qed
    then show ?thesis using b'(1) sub by auto
  qed
  show ?thesis
    unfolding walk_inv_def using sub sound complete by auto
qed

lemma walkRefs_unfold:
  "walkRefs G fuel (ref # refs) (visited, isUsed) =
     (if ref \<in> visited then walkRefs G fuel refs (visited, isUsed)
      else if kind_of G ref = DebugRef then walkRefs G fuel refs (insert ref visited, isUsed)
      else if kind_of G ref = OtherInstruction then Some (insert ref visited, True)
      else if \<not> passes G ref then walkRefs G fuel refs (insert ref visited, True)
      else
        (case fuel of
           0 \<Rightarrow> None
         | Suc fuel' \<Rightarrow>
             (case walkRefs G fuel' (Referrers G ref) (insert ref visited, isUsed) of
                None \<Rightarrow> None
              | Some st \<Rightarrow> walkRefs G fuel refs st)))"
  by (cases "kind_of G ref") (auto simp: passes_def isAppend_def)

lemma walkRefs_induct [case_names Nil Skip Debug Break Consumer Enter]:
  assumes "\<And>G fuel st. Q G fuel [] st"
    and "\<And>G fuel ref refs V u. ref \<in> V \<Longrightarrow> Q G fuel refs (V, u) \<Longrightarrow> Q G fuel (ref # refs) (V, u)"
    and "\<And>G fuel ref refs V u. ref \<notin> V \<Longrightarrow> kind_of G ref = DebugRef
          \<Longrightarrow> Q G fuel refs (insert ref V, u) \<Longrightarrow> Q G fuel (ref # refs) (V, u)"
    and "\<And>G fuel ref refs V u. ref \<notin> V \<Longrightarrow> kind_of G ref = OtherInstruction
          \<Longrightarrow> Q G fuel (ref # refs) (V, u)"
    and "\<And>G fuel ref refs V u. ref \<notin> V \<Longrightarrow> kind_of G ref \<noteq> DebugRef
          \<Longrightarrow> kind_of G ref \<noteq> OtherInstruction \<Longrightarrow> \<not> passes G ref
          \<Longrightarrow> Q G fuel refs (insert ref V, True) \<Longrightarrow> Q G fuel (ref # refs) (V, u)"
    and "\<And>G fuel ref refs V u. ref \<notin> V \<Longrightarrow> passes G ref
          \<Longrightarrow> (\<And>fuel'. fuel = Suc fuel' \<Longrightarrow> Q G fuel' (Referrers G ref) (insert ref V, u))
          \<Longrightarrow> (\<And>fuel' st. fuel = Suc fuel'
                \<Longrightarrow> walkRefs G fuel' (Referrers G ref) (insert ref V, u) = Some st
                \<Longrightarrow> Q G fuel refs st)
          \<Longrightarrow> Q G fuel (ref # refs) (V, u)"
  shows "Q G fuel refs st"
proof (induction G fuel refs st rule: walkRefs.induct)
  case (1 G fuel visited isUsed)
  show ?case by (rule assms(1))
next
  case (2 G fuel ref refs visited isUsed)
  show ?case
  proof (cases "ref \<in> visited")
    case True
    show ?thesis by (rule assms(2) [OF True]) (use "2.IH"(1) True in simp)
  next
    case nv: False
    show ?thesis
    proof (cases "kind_of G ref")
      case DebugRef
      show ?thesis by (rule assms(3) [OF nv DebugRef]) (use "2.IH"(2) nv DebugRef in simp)
    next
      case PhiInstr
      then have p: "passes G ref" by (simp add: passes_def)
      show ?thesis
      proof (rule assms(6) [OF nv p])
        fix fuel' assume "fuel = Suc fuel'"
        then show "Q G fuel' (Referrers G ref) (insert ref visited, isUsed)"
          using "2.IH"(4) [OF nv PhiInstr] by simp
      next
        fix fuel' st
        assume "fuel = Suc fuel'"
          "walkRefs G fuel' (Referrers G ref) (insert ref visited, isUsed) = Some st"
        then show "Q G fuel refs st"
          using "2.IH"(5) [OF nv PhiInstr] by simp
      qed
    next
      case (CallValue inv c)
      show ?thesis
      proof (cases "isAppend (CallValue inv c)")
        case True
        then have p: "passes G ref" using CallValue by (simp add: passes_def)
        show ?thesis
        proof (rule assms(6) [OF nv p])
          fix fuel' assume "fuel = Suc fuel'"
          then show "Q G fuel' (Referrers G ref) (insert ref visited, isUsed)"
            using "2.IH"(7) [OF nv CallValue] True by simp
        next
          fix fuel' st
          assume "fuel = Suc fuel'"
            "walkRefs G fuel' (Referrers G ref) (insert ref visited, isUsed) = Some st"
          then show "Q G fuel refs st"
            using "2.IH"(8) [OF nv CallValue] True by simp
        qed
      next
        case False
        then have np: "\<not> passes G ref" using CallValue by (simp add: passes_def)
        show ?thesis
          by (rule assms(5) [OF nv _ _ np])
             (use "2.IH"(6) [OF nv CallValue] False CallValue in simp_all)
      qed
    next
      case OtherValueInstr
      then have np: "\<not> passes G ref" by (simp add: passes_def isAppend_def)
      show ?thesis
        by (rule assms(5) [OF nv _ _ np])
           (use "2.IH"(9) [OF nv OtherValueInstr] OtherValueInstr in \<open>simp_all add: isAppend_def\<close>)
    next
      case OtherInstruction
      show ?thesis by (rule assms(4) [OF nv OtherInstruction])
    qed
  qed
qed


declare walkRefs.simps(2) [simp del]

lemma other_instruction_consumer: "kind_of G ref = OtherInstruction \<Longrightarrow> consumer G ref"
  by (simp add: consumer_def passes_def isAppend_def)

lemma walkRefs_inv:
  "walkRefs G fuel refs st = Some st' \<Longrightarrow> walk_inv G refs st st'"
proof (induction G fuel refs st arbitrary: st' rule: walkRefs_induct)
  case (Nil G fuel st)
  then show ?case by (cases st) (auto simp: walk_inv_def)
next
  case (Skip G fuel ref refs V u)
  then show ?case by (auto simp: walkRefs_unfold intro: walk_inv_skip)
next
  case (Debug G fuel ref refs V u)
  have "walk_inv G refs (insert ref V, u) st'"
    using Debug by (simp add: walkRefs_unfold)
  then show ?case
    using debug_not_consumer [OF Debug(2)] by (intro walk_inv_step [where ?u0.0 = u]) auto
next
  case (Break G fuel ref refs V u)
  then show ?case
    using walk_inv_break [OF other_instruction_consumer [OF Break(2)]]
    by (auto simp: walkRefs_unfold)
next
  case (Consumer G fuel ref refs V u)
  have c: "consumer G ref" using Consumer by (simp add: consumer_def)
  have "walk_inv G refs (insert ref V, True) st'"
    using Consumer by (simp add: walkRefs_unfold)
  then show ?case
    using c by (intro walk_inv_step [where ?u0.0 = True]) auto
next
  case (Enter G fuel ref refs V u)
  have kinds: "kind_of G ref \<noteq> DebugRef" "kind_of G ref \<noteq> OtherInstruction"
    using Enter(2) by (auto simp: passes_def isAppend_def)
  obtain fuel' st1 where fuel: "fuel = Suc fuel'"
    and r1: "walkRefs G fuel' (Referrers G ref) (insert ref V, u) = Some st1"
    and r2: "walkRefs G fuel refs st1 = Some st'"
    using Enter.prems Enter(1,2) kinds
    by (cases fuel) (auto simp: walkRefs_unfold split: option.splits)
  have i1: "walk_inv G (Referrers G ref) (insert ref V, u) st1"
    using Enter(3) [OF fuel r1] .
  have i2: "walk_inv G refs st1 st'"
    using Enter(4) [OF fuel r1 r2] .
  show ?case
    using walk_inv_enter [OF Enter(2) Enter(1), of u "fst st1" "snd st1" refs "fst st'" "snd st'"]
      i1 i2 by simp
qed

lemma passes_listed: "passes G ref \<Longrightarrow> map_of G ref \<noteq> None"
  by (auto simp: passes_def kind_of_def isAppend_def split: option.splits)

lemma walkRefs_fuel:
  "card (dom (map_of G) - fst st) \<le> fuel \<Longrightarrow> walkRefs G fuel refs st \<noteq> None"
proof (induction G fuel refs st rule: walkRefs_induct)
  case (Nil G fuel st)
  then show ?case by (cases st) simp
next
  case (Skip G fuel ref refs V u)
  then show ?case by (simp add: walkRefs_unfold)
next
  case (Debug G fuel ref refs V u)
  have "card (dom (map_of G) - insert ref V) \<le> fuel"
    using visited_card [of V "insert ref V" G fuel] Debug.prems by auto
  then show ?case using Debug by (simp add: walkRefs_unfold)
next
  case (Break G fuel ref refs V u)
  then show ?case by (simp add: walkRefs_unfold)
next
  case (Consumer G fuel ref refs V u)
  have "card (dom (map_of G) - insert ref V) \<le> fuel"
    using visited_card [of V "insert ref V" G fuel] Consumer.prems by auto
  then show ?case using Consumer by (simp add: walkRefs_unfold)
next
  case (Enter G fuel ref refs V u)
  have kinds: "kind_of G ref \<noteq> DebugRef" "kind_of G ref \<noteq> OtherInstruction"
    using Enter(2) by (auto simp: passes_def isAppend_def)
  obtain fuel' where fuel: "fuel = Suc fuel'"
    and le: "card (dom (map_of G) - insert ref V) \<le> fuel'"
    using unvisited_card [OF passes_listed [OF Enter(2)] Enter(1), of fuel] Enter.prems by auto
  have "walkRefs G fuel' (Referrers G ref) (insert ref V, u) \<noteq> None"
    using Enter(3) [OF fuel] le by simp
  then obtain st1 where r1: "walkRefs G fuel' (Referrers G ref) (insert ref V, u) = Some st1"
    by auto
  have "insert ref V \<subseteq> fst st1"
    using walkRefs_inv [OF r1] by (cases st1) (auto simp: walk_inv_def)
  then have "card (dom (map_of G) - fst st1) \<le> fuel"
    using visited_card [of "insert ref V" "fst st1" G fuel'] le fuel by simp
  then have "walkRefs G fuel refs st1 \<noteq> None"
    using Enter(4) [OF fuel r1] by simp
  then show ?case
    using Enter(1,2) kinds fuel r1 by (simp add: walkRefs_unfold)
qed

lemma walkRefs_result:
  "\<exists>V u. walkRefs G (length G) refs ({}, False) = Some (V, u)
     \<and> (u \<longleftrightarrow> (\<exists>r. feeds G refs r \<and> consumer G r))"
proof -
  have "walkRefs G (length G) refs ({}, False) \<noteq> None"
    using walkRefs_fuel [of G "({}, False)" "length G" refs] card_dom_map_of [of G] by simp
  then obtain V u where r: "walkRefs G (length G) refs ({}, False) = Some (V, u)"
    by auto
  have inv: "walk_inv G refs ({}, False) (V, u)"
    using walkRefs_inv [OF r] .
  have "u \<longleftrightarrow> (\<exists>r. feeds G refs r \<and> consumer G r)"
  proof (cases u)
    case True
    then show ?thesis using inv unfolding walk_inv_def by auto
  next
    case False
    have sub: "set refs \<subseteq> V"
      and closed: "\<forall>n \<in> V. \<not> consumer G n \<and> (passes G n \<longrightarrow> set (Referrers G n) \<subseteq> V)"
      using inv False unfolding walk_inv_def by auto
    have "r \<in> V" if "feeds G refs r" for r
      using that
    proof (induction rule: feeds.induct)
      case (direct r)
      then show ?case using sub by auto
    next
      case (through r' r)
      then show ?case using closed by blast
    qed
    then show ?thesis using False closed by blast
  qed
  then show ?thesis using r by blast
qed

text \<open>
  C8, as the code has it. For an assignment of a call of \<^verbatim>\<open>append\<close> to a single identifier
  other than \<^verbatim>\<open>_\<close> that is not a named result of the enclosing function, where the call has
  an SSA value with referrers: the assignment is reported if and only if no consumer is
  found from the referrers of the call through phis and calls of the builtin append,
  where a consumer is any referrer that is neither a debug reference, a phi nor such a
  call. The walk always ends.
\<close>
theorem append_flagged:
  assumes "Lhs assign = [Ident name obj]" and "name \<noteq> ''_''"
    and "Rhs assign = [CallExpr (Ident ''append'' callObj)]"
    and "EnclosingSSAFunction assign = Some tfn"
    and "\<not> named_result tfn obj"
    and "ValueForExpr assign = Some (Some refs)"
  shows "CheckIneffectiveAppend G assign = Some (\<not> (\<exists>r. feeds G refs r \<and> consumer G r))"
proof -
  obtain V u where r: "walkRefs G (length G) refs ({}, False) = Some (V, u)"
    and u: "u \<longleftrightarrow> (\<exists>r. feeds G refs r \<and> consumer G r)"
    using walkRefs_result by blast
  show ?thesis
    using assms r u by (simp add: CheckIneffectiveAppend_def)
qed

theorem append_flagged_witness:
  "CheckIneffectiveAppend loop_append
     \<lparr>Lhs = [Ident ''x'' 1], Rhs = [CallExpr (Ident ''append'' 0)],
      EnclosingSSAFunction = Some (Some [2]), ValueForExpr = Some (Some [2])\<rparr> = Some True
   \<and> CheckIneffectiveAppend [(4, OtherInstruction, [])]
     \<lparr>Lhs = [Ident ''x'' 1], Rhs = [CallExpr (Ident ''append'' 0)],
      EnclosingSSAFunction = Some (Some [2]), ValueForExpr = Some (Some [4])\<rparr> = Some False"
  using append_flagged [where G = loop_append and name = "''x''" and obj = 1 and callObj = 0
      and tfn = "Some [2]" and refs = "[2]"
      and assign = "\<lparr>Lhs = [Ident ''x'' 1], Rhs = [CallExpr (Ident ''append'' 0)],
      EnclosingSSAFunction = Some (Some [2]), ValueForExpr = Some (Some [2])\<rparr>"]
  by (simp add: CheckIneffectiveAppend_def loop_append_def named_result_def kind_of_def
      Referrers_def isAppend_def walkRefs.simps)

text \<open>
  C8 as stated fails for a named result: in
  \<^verbatim>\<open>func f() (r []int) { r = append(r, 1); r = nil; return }\<close> the first call of append has no
  referrer at all, and the assignment is not reported.
\<close>
theorem append_named_result_counterexample:
  "CheckIneffectiveAppend []
     \<lparr>Lhs = [Ident ''r'' 1], Rhs = [CallExpr (Ident ''append'' 0)],
      EnclosingSSAFunction = Some (Some [1]), ValueForExpr = Some (Some [])\<rparr> = Some False"
  by (simp add: CheckIneffectiveAppend_def named_result_def)

section \<open>Properties of the ineffective field assignment rule\<close>


























text \<open>
  C7 at \<open>two_writes\<close>. The map \<open>seen\<close> is made once for a block and kept across the writes
  of the block, so the second write examined does not look into block 1 again and is
  reported although block 1 reads it. Which write is the second depends on the order in
  which the map of writes is ranged over: two runs on the same method report different
  stores.
\<close>
theorem field_store_order_dependent:
  "CheckIneffecitiveFieldAssignments (\<lambda>xs. xs) (\<lambda>xs. xs) (Some two_writes)
     = Some [FieldAddr 2 (Alloc 0) 1 20]
   \<and> CheckIneffecitiveFieldAssignments (\<lambda>xs. xs) rev (Some two_writes)
     = Some [FieldAddr 1 (Alloc 0) 0 10]"
  by code_simp

theorem field_store_order_dependent_witness:
  "CheckIneffecitiveFieldAssignments (\<lambda>xs. xs) (\<lambda>xs. xs) (Some two_writes)
     \<noteq> CheckIneffecitiveFieldAssignments (\<lambda>xs. xs) rev (Some two_writes)"
  using field_store_order_dependent by simp

end
